theory Spec2Isabelle
  imports Complex_Main "HOL-Library.AList"
begin

section \<open>Errors\<close>

text \<open>
  Go error values of the repository and of the libraries it calls. The sentinels are the
  package-level variables of \<^verbatim>\<open>services\<close>; \<open>Canceled\<close> and \<open>DeadlineExceeded\<close> are
  \<^verbatim>\<open>context.Canceled\<close> and \<^verbatim>\<open>context.DeadlineExceeded\<close>; \<open>ExternalError\<close> is any other
  error of a library (chromedp, the MongoDB driver, net/http, strconv).
  \<open>WrapV e cause\<close> is \<^verbatim>\<open>fmt.Errorf("%w: %v", e, cause)\<close>: it wraps \<open>e\<close> and only prints
  \<open>cause\<close>; \<open>WrapS e s\<close> is \<^verbatim>\<open>fmt.Errorf("%w: %s", e, s)\<close>. \<open>WrapMsg msg e\<close> is
  \<^verbatim>\<open>fmt.Errorf(msg + ": %w", e)\<close>. \<open>ErrorString\<close> is an error made by \<^verbatim>\<open>fmt.Errorf\<close> with
  no \<^verbatim>\<open>%w\<close>.
\<close>

datatype error =
    Canceled
  | DeadlineExceeded
  | ExternalError string
  | ErrPriceFetchFailed
  | ErrElementNotFound
  | ErrBrowserTimeout
  | ErrMongoQueryFailed
  | ErrNoClosingPriceFound
  | ErrInvalidPriceFormat
  | ErrorString string
  | WrapV error error
  | WrapS error string
  | WrapMsg string error

text \<open>\<^verbatim>\<open>errors.Is(err, target)\<close>: \<open>target\<close> is \<open>err\<close> or is reached along its \<^verbatim>\<open>%w\<close> chain.\<close>

fun errors_Is :: "error \<Rightarrow> error \<Rightarrow> bool" where
  "errors_Is (WrapV e cause) target = (WrapV e cause = target \<or> errors_Is e target)"
| "errors_Is (WrapS e s) target = (WrapS e s = target \<or> errors_Is e target)"
| "errors_Is (WrapMsg msg e) target = (WrapMsg msg e = target \<or> errors_Is e target)"
| "errors_Is e target = (e = target)"

section \<open>Time\<close>

text \<open>
  A \<^verbatim>\<open>time.Time\<close> value is read through its accessors only: \<^verbatim>\<open>Year()\<close>, \<^verbatim>\<open>Month()\<close>,
  \<^verbatim>\<open>Day()\<close>, \<^verbatim>\<open>Hour()\<close>, \<^verbatim>\<open>Minute()\<close>, \<^verbatim>\<open>Weekday()\<close> (all in the value's own location)
  and, by the storage's sort on the timestamp, the instant \<open>Unix\<close>. The record holds
  what these accessors return.
\<close>

datatype weekday = Sunday | Monday | Tuesday | Wednesday | Thursday | Friday | Saturday

record Time =
  Unix :: int
  Year :: int
  Month :: int
  Day :: int
  Hour :: int
  Minute :: int
  Weekday :: weekday

text \<open>
  \<^verbatim>\<open>now.Format("2006-01-02")\<close> renders year, month and day; the model keeps the three
  numbers. The package variable \<^verbatim>\<open>lastProcessedDate\<close> starts as the empty string, which
  is the rendering of no date: \<open>None\<close>.
\<close>

type_synonym date = "int \<times> int \<times> int"

definition Format_date :: "Time \<Rightarrow> date" where
  "Format_date t = (Year t, Month t, Day t)"

section \<open>float64\<close>

text \<open>
  A \<^verbatim>\<open>float64\<close> is an IEEE 754 binary64 value: a finite number given by its sign bit
  (\<open>True\<close> for the negative sign) and its magnitude, so that both zeros exist; an infinity
  with its sign; or NaN (one NaN: the program reads no payload). The finite magnitudes of
  the format are the numbers \<open>k * 2 ^ e\<close> with \<open>k < 2 ^ 53\<close> and \<open>- 1074 \<le> e \<le> 971\<close>.
\<close>

datatype float64 = Finite bool real | Infinite bool | NaN

definition signed :: "bool \<Rightarrow> real \<Rightarrow> real" where
  "signed s m = (if s then - m else m)"

text \<open>
  The number of binary digits of a natural number, and with it the exponent \<open>ilog2 m\<close> of
  the power of two at or below a positive magnitude: \<open>2 ^ ilog2 m \<le> m < 2 ^ (ilog2 m + 1)\<close>.
\<close>

fun bits :: "nat \<Rightarrow> nat" where
  "bits n = (if n = 0 then 0 else Suc (bits (n div 2)))"

definition ilog2 :: "real \<Rightarrow> int" where
  "ilog2 m =
     (if 1 \<le> m then int (bits (nat \<lfloor>m\<rfloor>)) - 1 else - int (bits (nat (\<lceil>1 / m\<rceil> - 1))))"

definition pow2 :: "int \<Rightarrow> real" where
  "pow2 e = (if 0 \<le> e then 2 ^ nat e else 1 / 2 ^ nat (- e))"

text \<open>The nearest integer, a tie going to the even one.\<close>

definition round_even :: "real \<Rightarrow> int" where
  "round_even x =
     (let n = \<lfloor>x\<rfloor>; d = x - of_int n
      in if d < 1 / 2 then n else if 1 / 2 < d then n + 1 else if even n then n else n + 1)"

text \<open>
  Rounding to nearest, ties to even, which is the rounding of every Go operation on
  \<^verbatim>\<open>float64\<close> and of \<^verbatim>\<open>strconv.ParseFloat\<close>: the exact magnitude \<open>m\<close> is rounded to a
  multiple of \<open>2 ^ e\<close>, where \<open>e\<close> leaves 53 significant bits and is at least \<open>- 1074\<close> (the
  subnormal numbers); a result of \<open>2 ^ 1024\<close> or more is the infinity, and a result of 0
  keeps the sign.
\<close>

definition round64 :: "bool \<Rightarrow> real \<Rightarrow> float64" where
  "round64 s m =
     (if m = 0 then Finite s 0
      else
        (let e = max (ilog2 m - 52) (- 1074);
             r = of_int (round_even (m / pow2 e)) * pow2 e
         in if 2 ^ 1024 \<le> r then Infinite s else Finite s r))"

text \<open>
  The operations the program uses. The unary minus flips the sign. A sum of two finite
  numbers is the rounded exact sum, and an exact sum of zero is \<open>+0\<close> unless both operands
  are negative (both are then \<open>-0\<close>); infinities of opposite signs add to NaN. \<^verbatim>\<open>x - y\<close> is
  \<^verbatim>\<open>x + (-y)\<close>.
\<close>

fun f64_neg :: "float64 \<Rightarrow> float64" where
  "f64_neg (Finite s m) = Finite (\<not> s) m"
| "f64_neg (Infinite s) = Infinite (\<not> s)"
| "f64_neg NaN = NaN"

fun f64_add :: "float64 \<Rightarrow> float64 \<Rightarrow> float64" where
  "f64_add (Finite s m) (Finite t n) =
     (let r = signed s m + signed t n
      in if r = 0 then Finite (s \<and> t) 0 else round64 (r < 0) \<bar>r\<bar>)"
| "f64_add (Finite s m) (Infinite t) = Infinite t"
| "f64_add (Infinite s) (Finite t n) = Infinite s"
| "f64_add (Infinite s) (Infinite t) = (if s = t then Infinite s else NaN)"
| "f64_add NaN y = NaN"
| "f64_add x NaN = NaN"

definition f64_sub :: "float64 \<Rightarrow> float64 \<Rightarrow> float64" where
  "f64_sub x y = f64_add x (f64_neg y)"

text \<open>
  The sign of a product and of a quotient is the exclusive or of the signs. Zero times
  infinity, zero by zero and infinity by infinity are NaN; a number other than zero
  divided by zero is an infinity (Go does not panic on a \<^verbatim>\<open>float64\<close> division by zero).
\<close>

fun f64_mul :: "float64 \<Rightarrow> float64 \<Rightarrow> float64" where
  "f64_mul (Finite s m) (Finite t n) = round64 (s \<noteq> t) (m * n)"
| "f64_mul (Finite s m) (Infinite t) = (if m = 0 then NaN else Infinite (s \<noteq> t))"
| "f64_mul (Infinite s) (Finite t n) = (if n = 0 then NaN else Infinite (s \<noteq> t))"
| "f64_mul (Infinite s) (Infinite t) = Infinite (s \<noteq> t)"
| "f64_mul NaN y = NaN"
| "f64_mul x NaN = NaN"

fun f64_div :: "float64 \<Rightarrow> float64 \<Rightarrow> float64" where
  "f64_div (Finite s m) (Finite t n) =
     (if n = 0 then (if m = 0 then NaN else Infinite (s \<noteq> t))
      else round64 (s \<noteq> t) (m / n))"
| "f64_div (Finite s m) (Infinite t) = Finite (s \<noteq> t) 0"
| "f64_div (Infinite s) (Finite t n) = Infinite (s \<noteq> t)"
| "f64_div (Infinite s) (Infinite t) = NaN"
| "f64_div NaN y = NaN"
| "f64_div x NaN = NaN"

text \<open>\<^verbatim>\<open>math.Abs\<close> clears the sign bit.\<close>

fun f64_abs :: "float64 \<Rightarrow> float64" where
  "f64_abs (Finite s m) = Finite False m"
| "f64_abs (Infinite s) = Infinite False"
| "f64_abs NaN = NaN"

text \<open>
  The comparisons \<^verbatim>\<open>==\<close> and \<^verbatim>\<open>>=\<close>: false when an operand is NaN; the two zeros are
  equal.
\<close>

fun f64_eq :: "float64 \<Rightarrow> float64 \<Rightarrow> bool" where
  "f64_eq (Finite s m) (Finite t n) = (signed s m = signed t n)"
| "f64_eq (Infinite s) (Infinite t) = (s = t)"
| "f64_eq x y = False"

fun f64_ge :: "float64 \<Rightarrow> float64 \<Rightarrow> bool" where
  "f64_ge (Finite s m) (Finite t n) = (signed s m \<ge> signed t n)"
| "f64_ge (Finite s m) (Infinite t) = t"
| "f64_ge (Infinite s) (Finite t n) = (\<not> s)"
| "f64_ge (Infinite s) (Infinite t) = (\<not> s \<or> t)"
| "f64_ge NaN y = False"
| "f64_ge x NaN = False"

section \<open>models/types.go\<close>

record PriceResult =
  Symbol :: string
  Price :: string
  Error :: "error option"

record MongoDTO =
  doc_Symbol :: string
  doc_Price :: string
  Timestamp :: Time
  IsClosing :: bool

record PriceAlert =
  alert_Symbol :: string
  PreviousPrice :: float64
  CurrentPrice :: float64
  PercentChange :: float64
  alert_Timestamp :: Time

record Config =
  CheckHour :: int
  TimeZone :: string

section \<open>Constants of main.go\<close>

definition alertThreshold :: float64 where
  "alertThreshold = Finite False 5"

definition maxConcurrency :: int where
  "maxConcurrency = 5"

definition checkInterval :: int where
  "checkInterval = 15"

definition realtimeCheckMinutes :: int where
  "realtimeCheckMinutes = 30"

section \<open>Process state\<close>

text \<open>
  The lines \<^verbatim>\<open>log.Printf\<close> writes in main.go and in \<^verbatim>\<open>Database.SavePrice\<close>, one
  constructor per format string, holding its arguments.
\<close>

datatype log_line =
    LogCheckingTime Time
  | LogStartingDailyReport
  | LogDailyReportProcessed "date option"
  | LogCheckingRealtime
  | LogAlertMapReset
  | LogFetchingForDailyReport
  | LogErrDailyFetch error
  | LogErrDailySend error
  | LogDailySent
  | LogErrRealtimeFetch error
  | LogSignificantChange string float64
  | LogSendingAlerts nat
  | LogErrAlertsSend error
  | LogAlertsSent
  | LogErrFetchingPrice string error
  | LogFetchedCount nat
  | LogErrParsing string
  | LogErrRetrievingClosing string error
  | LogErrSaving string error
  | LogInsertFailed
  | LogSaved string string bool

text \<open>A call the process made on the \<^verbatim>\<open>Messenger\<close>, with its argument.\<close>

datatype sent =
    SendMessage "(string \<times> string) list"
  | SendAlerts "PriceAlert list"

text \<open>
  The MongoDB collection \<^verbatim>\<open>stock_data.stocks\<close> as the list of its documents, in insertion
  order, and the error of the driver when the server does not answer (\<open>None\<close> when it
  answers).
\<close>

record Database =
  stocks :: "MongoDTO list"
  failure :: "error option"

text \<open>
  The package variables of main.go (\<^verbatim>\<open>lastProcessedDate\<close>, \<^verbatim>\<open>lastAlertSentMap\<close>), the
  database behind \<^verbatim>\<open>db\<close>, the number of \<^verbatim>\<open>time.Now()\<close> calls made so far, the log and the
  calls made on the messenger. The mutex \<^verbatim>\<open>alertMapMutex\<close> is not modelled: the scheduler
  calls these functions from one goroutine.
\<close>

record World =
  lastProcessedDate :: "date option"
  lastAlertSentMap :: "string \<rightharpoonup> Time"
  db :: Database
  ticks :: nat
  logged :: "log_line list"
  outbox :: "sent list"

text \<open>
  \<^verbatim>\<open>time.Now()\<close>: the clock \<open>clk\<close> gives the value of the n-th call; every call
  advances the count.
\<close>

definition time_Now :: "(nat \<Rightarrow> Time) \<Rightarrow> World \<Rightarrow> Time \<times> World" where
  "time_Now clk w = (clk (ticks w), w\<lparr>ticks := Suc (ticks w)\<rparr>)"

definition log_Printf :: "log_line \<Rightarrow> World \<Rightarrow> World" where
  "log_Printf l w = w\<lparr>logged := logged w @ [l]\<rparr>"

section \<open>Alert gate (main.go)\<close>

definition resetAlertMap :: "World \<Rightarrow> World" where
  "resetAlertMap w = log_Printf LogAlertMapReset (w\<lparr>lastAlertSentMap := Map.empty\<rparr>)"

definition canSendAlert :: "(nat \<Rightarrow> Time) \<Rightarrow> World \<Rightarrow> string \<Rightarrow> bool \<times> World" where
  "canSendAlert clk w symbol =
     (case lastAlertSentMap w symbol of
        None \<Rightarrow> (True, w)
      | Some lastSent \<Rightarrow>
          (let (now, w') = time_Now clk w
           in (Day lastSent \<noteq> Day now \<or> Month lastSent \<noteq> Month now \<or> Year lastSent \<noteq> Year now,
               w')))"

definition markAlertSent :: "(nat \<Rightarrow> Time) \<Rightarrow> World \<Rightarrow> string \<Rightarrow> World" where
  "markAlertSent clk w symbol =
     (let (now, w') = time_Now clk w
      in w'\<lparr>lastAlertSentMap := (lastAlertSentMap w')(symbol \<mapsto> now)\<rparr>)"

section \<open>Storage (services/database.go)\<close>

text \<open>
  \<^verbatim>\<open>strconv.ParseFloat(s, 64)\<close> is a library function: the model takes it as the
  parameter \<open>parse\<close>, which returns the number or the library's error.
\<close>

type_synonym parser = "string \<Rightarrow> error + float64"

text \<open>
  \<^verbatim>\<open>FindOne\<close> with the sort \<^verbatim>\<open>timestamp: -1\<close>: a document with the greatest timestamp
  among the given ones (of several with that timestamp, the one inserted first).
\<close>

fun latest_doc :: "MongoDTO list \<Rightarrow> MongoDTO option" where
  "latest_doc [] = None"
| "latest_doc (d # ds) =
     (case latest_doc ds of
        None \<Rightarrow> Some d
      | Some e \<Rightarrow> if Unix (Timestamp d) < Unix (Timestamp e) then Some e else Some d)"

definition GetLatestClosingPrice :: "parser \<Rightarrow> Database \<Rightarrow> string \<Rightarrow> error + float64" where
  "GetLatestClosingPrice parse d symbol =
     (case failure d of
        Some err \<Rightarrow> Inl (WrapV ErrMongoQueryFailed err)
      | None \<Rightarrow>
          (case latest_doc (filter (\<lambda>x. doc_Symbol x = symbol \<and> IsClosing x) (stocks d)) of
             None \<Rightarrow> Inl (WrapS ErrNoClosingPriceFound symbol)
           | Some result \<Rightarrow>
               (case parse (doc_Price result) of
                  Inl err \<Rightarrow> Inl (WrapV ErrInvalidPriceFormat err)
                | Inr price \<Rightarrow> Inr price)))"

text \<open>\<^verbatim>\<open>SavePrice(symbol, price, isClosing, nil)\<close>: the wait group is nil at every call.\<close>

definition SavePrice ::
  "(nat \<Rightarrow> Time) \<Rightarrow> World \<Rightarrow> string \<Rightarrow> string \<Rightarrow> bool \<Rightarrow> error option \<times> World" where
  "SavePrice clk w symbol price isClosing =
     (let (now, w1) = time_Now clk w;
          stockData = \<lparr>doc_Symbol = symbol, doc_Price = price, Timestamp = now,
                       IsClosing = isClosing\<rparr>
      in case failure (db w1) of
           Some err \<Rightarrow> (Some (WrapV ErrMongoQueryFailed err), log_Printf LogInsertFailed w1)
         | None \<Rightarrow>
             (None,
              log_Printf (LogSaved symbol price isClosing)
                (w1\<lparr>db := (db w1)\<lparr>stocks := stocks (db w1) @ [stockData]\<rparr>\<rparr>)))"

section \<open>Price-change evaluator (main.go)\<close>

text \<open>
  The Go function returns \<^verbatim>\<open>(alert, true)\<close> or \<^verbatim>\<open>(models.PriceAlert{}, false)\<close>: here
  \<open>Some alert\<close> or \<open>None\<close>. The subtraction, the division and the multiplication each
  round their result (the expression holds no multiplication followed by an addition,
  which alone a Go compiler may fuse); the constants \<^verbatim>\<open>0\<close>, \<^verbatim>\<open>100\<close> and \<^verbatim>\<open>5.0\<close> convert to
  \<^verbatim>\<open>float64\<close> exactly.
\<close>

definition checkPriceChange ::
  "parser \<Rightarrow> (nat \<Rightarrow> Time) \<Rightarrow> World \<Rightarrow> string \<Rightarrow> string \<Rightarrow> PriceAlert option \<times> World" where
  "checkPriceChange parse clk w symbol currentPriceStr =
     (case parse currentPriceStr of
        Inl err \<Rightarrow> (None, log_Printf (LogErrParsing symbol) w)
      | Inr currentPrice \<Rightarrow>
          (case GetLatestClosingPrice parse (db w) symbol of
             Inl err \<Rightarrow>
               (None,
                if \<not> errors_Is err ErrNoClosingPriceFound
                then log_Printf (LogErrRetrievingClosing symbol err) w else w)
           | Inr previousPrice \<Rightarrow>
               if f64_eq previousPrice (Finite False 0) then (None, w)
               else
                 (let percentChange =
                        f64_mul (f64_div (f64_sub currentPrice previousPrice) previousPrice)
                          (Finite False 100)
                  in if f64_ge (f64_abs percentChange) alertThreshold
                     then
                       (let (now, w1) = time_Now clk w;
                            alert = \<lparr>alert_Symbol = symbol, PreviousPrice = previousPrice,
                                     CurrentPrice = currentPrice, PercentChange = percentChange,
                                     alert_Timestamp = now\<rparr>;
                            (err, w2) = SavePrice clk w1 symbol currentPriceStr False
                        in (Some alert,
                            case err of
                              Some e \<Rightarrow> log_Printf (LogErrSaving symbol e) w2
                            | None \<Rightarrow> w2))
                     else (None, w))))"

section \<open>Fetch cycle, daily report and realtime sweep (main.go)\<close>

text \<open>
  What \<^verbatim>\<open>FetchPriceConcurrent\<close> returned to \<^verbatim>\<open>fetchAllPrices\<close>: the entries of the result
  map in the order \<^verbatim>\<open>range\<close> visits them, and the error. A Go map is an association list
  here; \<^verbatim>\<open>m[k] = v\<close> is \<open>AList.update k v m\<close>.
\<close>

type_synonym fetch_outcome = "(string \<times> PriceResult) list \<times> error option"

fun fetchAllPrices_loop ::
  "(string \<times> PriceResult) list \<Rightarrow> (string \<times> string) list \<Rightarrow> nat \<Rightarrow> World
     \<Rightarrow> (string \<times> string) list \<times> nat \<times> World" where
  "fetchAllPrices_loop [] prices successCount w = (prices, successCount, w)"
| "fetchAllPrices_loop ((symbol, result) # rest) prices successCount w =
     (case Error result of
        Some e \<Rightarrow>
          fetchAllPrices_loop rest prices successCount (log_Printf (LogErrFetchingPrice symbol e) w)
      | None \<Rightarrow>
          fetchAllPrices_loop rest (AList.update symbol (Price result) prices) (Suc successCount) w)"

definition fetchAllPrices ::
  "fetch_outcome \<Rightarrow> World \<Rightarrow> (error + (string \<times> string) list) \<times> World" where
  "fetchAllPrices outcome w =
     (case snd outcome of
        Some err \<Rightarrow> (Inl (WrapMsg ''error during price fetching'' err), w)
      | None \<Rightarrow>
          (case fetchAllPrices_loop (fst outcome) [] 0 w of
             (prices, successCount, w1) \<Rightarrow>
               if successCount = 0
               then (Inl (ErrorString ''failed to fetch any stock prices''), w1)
               else (Inr prices, log_Printf (LogFetchedCount successCount) w1)))"

text \<open>
  What the process meets outside itself during one tick of the scheduler: the clock,
  the conversion \<^verbatim>\<open>In(loc)\<close> to the scheduler's time zone, \<^verbatim>\<open>strconv.ParseFloat\<close>, and for
  each of the two transitions the outcome of its fetch cycle and the error of its call on
  the messenger.
\<close>

record Env =
  clock :: "nat \<Rightarrow> Time"
  In_loc :: "Time \<Rightarrow> Time"
  ParseFloat :: parser
  dailyFetch :: fetch_outcome
  dailySend :: "error option"
  realtimeFetch :: fetch_outcome
  realtimeSend :: "error option"

definition messenger_call :: "sent \<Rightarrow> World \<Rightarrow> World" where
  "messenger_call c w = w\<lparr>outbox := outbox w @ [c]\<rparr>"

definition sendDailyReport :: "Env \<Rightarrow> World \<Rightarrow> World" where
  "sendDailyReport env w =
     (case fetchAllPrices (dailyFetch env) (log_Printf LogFetchingForDailyReport w) of
        (Inl err, w1) \<Rightarrow> log_Printf (LogErrDailyFetch err) w1
      | (Inr prices, w1) \<Rightarrow>
          (let w2 = messenger_call (SendMessage prices) w1
           in case dailySend env of
                Some err \<Rightarrow> log_Printf (LogErrDailySend err) w2
              | None \<Rightarrow> log_Printf LogDailySent w2))"

text \<open>The loop of \<^verbatim>\<open>checkRealtimePriceChanges\<close> over the price map.\<close>

fun sweep_loop ::
  "parser \<Rightarrow> (nat \<Rightarrow> Time) \<Rightarrow> (string \<times> string) list \<Rightarrow> PriceAlert list \<Rightarrow> World
     \<Rightarrow> PriceAlert list \<times> World" where
  "sweep_loop parse clk [] alertsToSend w = (alertsToSend, w)"
| "sweep_loop parse clk ((symbol, priceStr) # rest) alertsToSend w =
     (case canSendAlert clk w symbol of
        (False, w1) \<Rightarrow> sweep_loop parse clk rest alertsToSend w1
      | (True, w1) \<Rightarrow>
          (case checkPriceChange parse clk w1 symbol priceStr of
             (None, w2) \<Rightarrow> sweep_loop parse clk rest alertsToSend w2
           | (Some alert, w2) \<Rightarrow>
               sweep_loop parse clk rest (alertsToSend @ [alert])
                 (log_Printf (LogSignificantChange symbol (PercentChange alert))
                    (markAlertSent clk w2 symbol))))"

definition checkRealtimePriceChanges :: "Env \<Rightarrow> World \<Rightarrow> World" where
  "checkRealtimePriceChanges env w =
     (case fetchAllPrices (realtimeFetch env) w of
        (Inl err, w1) \<Rightarrow> log_Printf (LogErrRealtimeFetch err) w1
      | (Inr prices, w1) \<Rightarrow>
          (case sweep_loop (ParseFloat env) (clock env) prices [] w1 of
             (alertsToSend, w2) \<Rightarrow>
               if length alertsToSend > 0
               then
                 (let w3 = messenger_call (SendAlerts alertsToSend)
                             (log_Printf (LogSendingAlerts (length alertsToSend)) w2)
                  in case realtimeSend env of
                       Some err \<Rightarrow> log_Printf (LogErrAlertsSend err) w3
                     | None \<Rightarrow> log_Printf LogAlertsSent w3)
               else w2))"

section \<open>Scheduler (main.go)\<close>

definition isMarketOpen :: "Time \<Rightarrow> bool" where
  "isMarketOpen now =
     (if Weekday now = Saturday \<or> Weekday now = Sunday then False
      else (let hour = Hour now in (hour \<ge> 21 \<and> hour \<le> 23) \<or> (hour \<ge> 0 \<and> hour \<le> 7)))"

text \<open>
  One tick. \<^verbatim>\<open>now.Minute()%realtimeCheckMinutes == 0\<close> is divisibility, which \<open>mod\<close>
  decides as Go's \<^verbatim>\<open>%\<close> does.
\<close>

definition checkAndProcess :: "Env \<Rightarrow> Config \<Rightarrow> World \<Rightarrow> World" where
  "checkAndProcess env config w =
     (let (t, w0) = time_Now (clock env) w;
          now = In_loc env t;
          currentDate = Format_date now;
          w1 = log_Printf (LogCheckingTime now) w0;
          w2 = (if Hour now = CheckHour config \<and> Minute now < checkInterval
                   \<and> lastProcessedDate w1 \<noteq> Some currentDate
                then
                  (let wa = sendDailyReport env (log_Printf LogStartingDailyReport w1);
                       wb = wa\<lparr>lastProcessedDate := Some currentDate\<rparr>;
                       wc = log_Printf (LogDailyReportProcessed (lastProcessedDate wb)) wb
                   in resetAlertMap wc)
                else w1)
      in if \<not> isMarketOpen now then w2
         else if Minute now mod realtimeCheckMinutes = 0
         then checkRealtimePriceChanges env (log_Printf LogCheckingRealtime w2)
         else w2)"


section \<open>Quote source adapter: the retry loop of FetchPrice (services)\<close>

record PriceFetcher =
  FetchTimeout :: int
  MaxRetries :: int
  RetryInterval :: int

text \<open>
  What one call of \<^verbatim>\<open>FetchPrice\<close> does besides returning: its log lines, the
  \<^verbatim>\<open>time.Sleep(pf.RetryInterval)\<close> before each retry, and each \<^verbatim>\<open>chromedp.Run\<close>.
\<close>

datatype fetch_event =
    EvLogFetching string
  | EvLogRetry int
  | EvSleep int
  | EvRun int
  | EvLogTimedOut
  | EvLogError error

text \<open>
  \<^verbatim>\<open>chromedp.Run\<close> on a fresh tab is the parameter \<open>Run\<close>: given the number of the
  attempt and the content of the variable \<^verbatim>\<open>price\<close> (which the action \<^verbatim>\<open>chromedp.Text\<close>
  writes through a pointer), it returns the new content of \<^verbatim>\<open>price\<close> and the error.
  The deferred cancellations of the tab contexts have no part in the result.
\<close>

function FetchPrice_loop ::
  "PriceFetcher \<Rightarrow> (int \<Rightarrow> string \<Rightarrow> string \<times> error option) \<Rightarrow> int \<Rightarrow> string \<Rightarrow> error option
     \<Rightarrow> fetch_event list \<Rightarrow> (string \<times> error option) \<times> fetch_event list" where
  "FetchPrice_loop pf Run attempt price err tr =
     (if attempt < MaxRetries pf
      then
        (let tr1 = (if attempt > 0
                    then tr @ [EvLogRetry attempt, EvSleep (RetryInterval pf)] else tr);
             r = Run attempt price;
             tr2 = tr1 @ [EvRun attempt]
         in case snd r of
              None \<Rightarrow> ((fst r, None), tr2)
            | Some e \<Rightarrow>
                if errors_Is e Canceled \<or> errors_Is e DeadlineExceeded
                then FetchPrice_loop pf Run (attempt + 1) (fst r) (snd r) (tr2 @ [EvLogTimedOut])
                else FetchPrice_loop pf Run (attempt + 1) (fst r) (snd r) (tr2 @ [EvLogError e]))
      else
        (case err of
           Some e \<Rightarrow> (('''', Some (WrapV ErrPriceFetchFailed e)), tr)
         | None \<Rightarrow>
             if price = '''' then (('''', Some ErrElementNotFound), tr)
             else ((price, None), tr)))"
  by pat_completeness auto
termination
  by (relation "measure (\<lambda>(pf, Run, attempt, price, err, tr). nat (MaxRetries pf - attempt))") auto

definition FetchPrice ::
  "PriceFetcher \<Rightarrow> (string \<Rightarrow> int \<Rightarrow> string \<Rightarrow> string \<times> error option) \<Rightarrow> string
     \<Rightarrow> (string \<times> error option) \<times> fetch_event list" where
  "FetchPrice pf Run url = FetchPrice_loop pf (Run url) 0 '''' None [EvLogFetching url]"

text \<open>The number of \<^verbatim>\<open>chromedp.Run\<close> calls and of retries (sleeps) in a trace.\<close>

definition attempts :: "fetch_event list \<Rightarrow> nat" where
  "attempts tr = length (filter (\<lambda>e. case e of EvRun n \<Rightarrow> True | _ \<Rightarrow> False) tr)"

definition retries :: "fetch_event list \<Rightarrow> nat" where
  "retries tr = length (filter (\<lambda>e. case e of EvSleep n \<Rightarrow> True | _ \<Rightarrow> False) tr)"

section \<open>Bounded fetch orchestrator: the goroutines of FetchPriceConcurrent (services)\<close>

text \<open>
  \<^verbatim>\<open>GetURLs\<close> and the read \<^verbatim>\<open>urls[symbol]\<close>, which gives the empty string for a missing
  key.
\<close>

definition GetURLs :: "string list \<Rightarrow> (string \<rightharpoonup> string)" where
  "GetURLs tickers =
     foldl (\<lambda>urls t. urls(t \<mapsto> ''https://finance.yahoo.com/quote/'' @ t @ ''/''))
       Map.empty tickers"

definition url_of :: "(string \<rightharpoonup> string) \<Rightarrow> string \<Rightarrow> string" where
  "url_of urls symbol = (case urls symbol of None \<Rightarrow> '''' | Some u \<Rightarrow> u)"

text \<open>
  \<^verbatim>\<open>FetchPriceConcurrent\<close> starts one goroutine per ticker and one that closes the result
  channel, and collects the results itself. The model is the interleaving of their
  steps. A worker goroutine stands at one of these points of its function:
  \<^item> \<open>AtAcquire\<close>: before the send \<^verbatim>\<open>sem <- struct{}{}\<close>;
  \<^item> \<open>AtFetch\<close>: it has a slot and is inside \<^verbatim>\<open>pf.FetchPrice(ctx, url)\<close>;
  \<^item> \<open>AtSend r\<close>: \<^verbatim>\<open>FetchPrice\<close> has returned, the result \<open>r\<close> is built, before the send
    \<^verbatim>\<open>results <- r\<close>;
  \<^item> \<open>AtRelease\<close>: before the deferred receive \<^verbatim>\<open><-sem\<close>;
  \<^item> \<open>AtDone\<close>: before the deferred \<^verbatim>\<open>wg.Done()\<close>;
  \<^item> \<open>Exited\<close>.
\<close>

datatype worker_pc = AtAcquire | AtFetch | AtSend PriceResult | AtRelease | AtDone | Exited

text \<open>
  The calling goroutine is in the loop that starts the workers (\<open>Spawning i\<close>: the next
  ticker is the i-th; after the last one it starts the closing goroutine), in the loop
  \<^verbatim>\<open>for result := range results\<close>, or it has returned. The closing goroutine is not
  started, in \<^verbatim>\<open>wg.Wait()\<close>, before \<^verbatim>\<open>close(results)\<close>, or finished.
\<close>

datatype main_pc = Spawning nat | Ranging | Returned

datatype closer_pc = NotStarted | Waiting | Closing | Finished

datatype actor = Main | Closer | Worker nat

text \<open>
  The state: the workers started so far, each with its parameter \<^verbatim>\<open>symbol\<close>; the number
  of elements in the channel \<^verbatim>\<open>sem\<close>; the buffer of the channel \<^verbatim>\<open>results\<close> and whether
  it is closed; the counter of the wait group; where the caller and the closing goroutine
  stand; the map \<^verbatim>\<open>priceMap\<close>; what the call returned; and whether a goroutine panicked.
\<close>

record goroutines =
  workers :: "(string \<times> worker_pc) list"
  sem :: nat
  results :: "PriceResult list"
  closed :: bool
  wg :: int
  main_at :: main_pc
  closer_at :: closer_pc
  priceMap :: "string \<rightharpoonup> PriceResult"
  returned :: "((string \<rightharpoonup> PriceResult) \<times> error option) option"
  panicked :: bool

text \<open>
  The state after \<^verbatim>\<open>make(chan struct{}, maxConcurrency)\<close> and
  \<^verbatim>\<open>make(chan models.PriceResult, len(tickers))\<close>. A negative capacity makes \<^verbatim>\<open>make\<close>
  panic.
\<close>

definition FetchPriceConcurrent_start :: "int \<Rightarrow> goroutines" where
  "FetchPriceConcurrent_start limit =
     \<lparr>workers = [], sem = 0, results = [], closed = False, wg = 0, main_at = Spawning 0,
      closer_at = NotStarted, priceMap = Map.empty, returned = None,
      panicked = (limit < 0)\<rparr>"

text \<open>
  One step of the caller. In the first loop: \<^verbatim>\<open>wg.Add(1)\<close> and \<^verbatim>\<open>go func(symbol)\<close> for
  the next ticker, then \<^verbatim>\<open>go func() { wg.Wait(); close(results) }()\<close>. In the second
  loop: a receive takes the first buffered result and stores it under its symbol; on the
  closed and drained channel the loop ends and the function returns \<^verbatim>\<open>priceMap, nil\<close>; on
  the empty open channel the receive blocks (\<open>None\<close>).
\<close>

definition step_main :: "string list \<Rightarrow> goroutines \<Rightarrow> goroutines option" where
  "step_main tickers c =
     (case main_at c of
        Spawning i \<Rightarrow>
          if i < length tickers
          then Some (c\<lparr>wg := wg c + 1, workers := workers c @ [(tickers ! i, AtAcquire)],
                       main_at := Spawning (Suc i)\<rparr>)
          else Some (c\<lparr>closer_at := Waiting, main_at := Ranging\<rparr>)
      | Ranging \<Rightarrow>
          (case results c of
             r # rest \<Rightarrow> Some (c\<lparr>results := rest, priceMap := (priceMap c)(Symbol r \<mapsto> r)\<rparr>)
           | [] \<Rightarrow>
               if closed c
               then Some (c\<lparr>main_at := Returned, returned := Some (priceMap c, None)\<rparr>)
               else None)
      | Returned \<Rightarrow> None)"

text \<open>
  One step of the closing goroutine: \<^verbatim>\<open>wg.Wait()\<close> returns when the counter is zero;
  then \<^verbatim>\<open>close(results)\<close>.
\<close>

definition step_closer :: "goroutines \<Rightarrow> goroutines option" where
  "step_closer c =
     (case closer_at c of
        NotStarted \<Rightarrow> None
      | Waiting \<Rightarrow> if wg c = 0 then Some (c\<lparr>closer_at := Closing\<rparr>) else None
      | Closing \<Rightarrow> Some (c\<lparr>closed := True, closer_at := Finished\<rparr>)
      | Finished \<Rightarrow> None)"

text \<open>
  One step of the i-th worker. The send on \<^verbatim>\<open>sem\<close> goes through when the channel holds
  fewer elements than its capacity \<^verbatim>\<open>maxConcurrency\<close> and blocks otherwise (with capacity
  0 it would need a receiver standing ready, and the only receives on \<^verbatim>\<open>sem\<close> are the
  deferred ones of workers whose send went through). \<open>fetch i url\<close> is what
  \<^verbatim>\<open>pf.FetchPrice(ctx, url)\<close> returns to this worker. The send on \<^verbatim>\<open>results\<close> goes through
  when its buffer of capacity \<^verbatim>\<open>len(tickers)\<close> is not full, and panics on a closed channel.
  The deferred receive takes an element out of \<^verbatim>\<open>sem\<close>; \<^verbatim>\<open>wg.Done()\<close> panics when it would
  make the counter negative.
\<close>

definition step_worker ::
  "(nat \<Rightarrow> string \<Rightarrow> string \<times> error option) \<Rightarrow> string list \<Rightarrow> int \<Rightarrow> goroutines \<Rightarrow> nat
     \<Rightarrow> goroutines option" where
  "step_worker fetch tickers limit c i =
     (if length (workers c) \<le> i then None
      else
        (let symbol = fst (workers c ! i)
         in case snd (workers c ! i) of
              AtAcquire \<Rightarrow>
                if int (sem c) < limit
                then Some (c\<lparr>sem := Suc (sem c), workers := (workers c)[i := (symbol, AtFetch)]\<rparr>)
                else None
            | AtFetch \<Rightarrow>
                (let url = url_of (GetURLs tickers) symbol;
                     r = fetch i url
                 in Some (c\<lparr>workers := (workers c)
                      [i := (symbol, AtSend \<lparr>Symbol = symbol, Price = fst r, Error = snd r\<rparr>)]\<rparr>))
            | AtSend r \<Rightarrow>
                if closed c then Some (c\<lparr>panicked := True\<rparr>)
                else if length (results c) < length tickers
                then Some (c\<lparr>results := results c @ [r],
                             workers := (workers c)[i := (symbol, AtRelease)]\<rparr>)
                else None
            | AtRelease \<Rightarrow>
                if 0 < sem c
                then Some (c\<lparr>sem := sem c - 1, workers := (workers c)[i := (symbol, AtDone)]\<rparr>)
                else None
            | AtDone \<Rightarrow>
                if wg c \<le> 0 then Some (c\<lparr>panicked := True\<rparr>)
                else Some (c\<lparr>wg := wg c - 1, workers := (workers c)[i := (symbol, Exited)]\<rparr>)
            | Exited \<Rightarrow> None))"

text \<open>
  One step of the program by the goroutine the scheduler picks; \<open>None\<close> when that
  goroutine cannot move. After a panic nothing moves.
\<close>

definition step ::
  "(nat \<Rightarrow> string \<Rightarrow> string \<times> error option) \<Rightarrow> string list \<Rightarrow> int \<Rightarrow> goroutines \<Rightarrow> actor
     \<Rightarrow> goroutines option" where
  "step fetch tickers limit c a =
     (if panicked c then None
      else case a of
             Main \<Rightarrow> step_main tickers c
           | Closer \<Rightarrow> step_closer c
           | Worker i \<Rightarrow> step_worker fetch tickers limit c i)"

text \<open>The state a schedule leads to; \<open>None\<close> when it picks a goroutine that cannot move.\<close>

fun run ::
  "(nat \<Rightarrow> string \<Rightarrow> string \<times> error option) \<Rightarrow> string list \<Rightarrow> int \<Rightarrow> goroutines
     \<Rightarrow> actor list \<Rightarrow> goroutines option" where
  "run fetch tickers limit c [] = Some c"
| "run fetch tickers limit c (a # sched) =
     (case step fetch tickers limit c a of
        None \<Rightarrow> None
      | Some c' \<Rightarrow> run fetch tickers limit c' sched)"

text \<open>
  The states \<^verbatim>\<open>FetchPriceConcurrent(ctx, tickers, maxConcurrency)\<close> can be in: those some
  schedule leads to from the start.
\<close>

definition FetchPriceConcurrent ::
  "(nat \<Rightarrow> string \<Rightarrow> string \<times> error option) \<Rightarrow> string list \<Rightarrow> int \<Rightarrow> actor list
     \<Rightarrow> goroutines option" where
  "FetchPriceConcurrent fetch tickers limit sched =
     run fetch tickers limit (FetchPriceConcurrent_start limit) sched"

text \<open>
  A worker holds a slot of \<^verbatim>\<open>sem\<close> from its send to its deferred receive; its fetch is in
  flight while it is inside \<^verbatim>\<open>FetchPrice\<close>.
\<close>

fun holding :: "string \<times> worker_pc \<Rightarrow> bool" where
  "holding (symbol, AtFetch) = True"
| "holding (symbol, AtSend r) = True"
| "holding (symbol, AtRelease) = True"
| "holding (symbol, pc) = False"

fun in_flight :: "string \<times> worker_pc \<Rightarrow> bool" where
  "in_flight (symbol, AtFetch) = True"
| "in_flight (symbol, pc) = False"

section \<open>Auxiliary definitions\<close>

text \<open>The trace of one iteration of the retry loop up to the end of its run.\<close>

definition retry_trace :: "PriceFetcher \<Rightarrow> int \<Rightarrow> fetch_event list \<Rightarrow> fetch_event list" where
  "retry_trace pf attempt tr =
     (if attempt > 0 then tr @ [EvLogRetry attempt, EvSleep (RetryInterval pf)] else tr)
       @ [EvRun attempt]"

text \<open>The lines a run added to the log.\<close>

definition new_lines :: "World \<Rightarrow> World \<Rightarrow> log_line list" where
  "new_lines w w' = drop (length (logged w)) (logged w')"

text \<open>The calls a run added on the messenger.\<close>

definition new_calls :: "World \<Rightarrow> World \<Rightarrow> sent list" where
  "new_calls w w' = drop (length (outbox w)) (outbox w')"

definition is_SendMessage :: "sent \<Rightarrow> bool" where
  "is_SendMessage c = (case c of SendMessage prices \<Rightarrow> True | SendAlerts alerts \<Rightarrow> False)"

definition is_SendAlerts :: "sent \<Rightarrow> bool" where
  "is_SendAlerts c = (case c of SendMessage prices \<Rightarrow> False | SendAlerts alerts \<Rightarrow> True)"

text \<open>
  A fetch cycle with zero successes: \<^verbatim>\<open>FetchPriceConcurrent\<close> returned an error, or every
  entry of its map holds an error. It is the case in which \<^verbatim>\<open>fetchAllPrices\<close> fails.
\<close>

definition zero_successes :: "fetch_outcome \<Rightarrow> bool" where
  "zero_successes outcome =
     (snd outcome \<noteq> None \<or> list_all (\<lambda>x. Error (snd x) \<noteq> None) (fst outcome))"

text \<open>One iteration of the loop of \<^verbatim>\<open>checkRealtimePriceChanges\<close>.\<close>

definition sweep_step ::
  "parser \<Rightarrow> (nat \<Rightarrow> Time) \<Rightarrow> string \<Rightarrow> string \<Rightarrow> PriceAlert list \<Rightarrow> World
     \<Rightarrow> PriceAlert list \<times> World" where
  "sweep_step parse clk symbol priceStr alertsToSend w =
     (case canSendAlert clk w symbol of
        (False, w1) \<Rightarrow> (alertsToSend, w1)
      | (True, w1) \<Rightarrow>
          (case checkPriceChange parse clk w1 symbol priceStr of
             (None, w2) \<Rightarrow> (alertsToSend, w2)
           | (Some alert, w2) \<Rightarrow>
               (alertsToSend @ [alert],
                log_Printf (LogSignificantChange symbol (PercentChange alert))
                  (markAlertSent clk w2 symbol))))"

text \<open>The documents a closing-price lookup can see.\<close>

definition closing_docs :: "Database \<Rightarrow> MongoDTO list" where
  "closing_docs d = filter IsClosing (stocks d)"

text \<open>
  The price string of a symbol shows a significant change against the stored closing
  price: the case in which \<open>checkPriceChange\<close> returns an alert.
\<close>

definition significant_change :: "parser \<Rightarrow> Database \<Rightarrow> string \<Rightarrow> string \<Rightarrow> bool" where
  "significant_change parse d symbol priceStr =
     (case parse priceStr of
        Inl err \<Rightarrow> False
      | Inr cur \<Rightarrow>
          (case GetLatestClosingPrice parse d symbol of
             Inl err \<Rightarrow> False
           | Inr prev \<Rightarrow>
               \<not> f64_eq prev (Finite False 0)
               \<and> f64_ge (f64_abs (f64_mul (f64_div (f64_sub cur prev) prev) (Finite False 100)))
                     alertThreshold))"

text \<open>
  What the steps of a sweep keep between a state \<open>w\<close> and a later state \<open>w'\<close>: the
  processed date and the messenger calls; the clock only advances; the closing documents
  and the state of the server stay; the log grows by lines other than the two that
  announce a transition; no entry of the alert map is dropped, and an entry that is new
  or changed holds a clock reading taken in between.
\<close>

definition progress :: "(nat \<Rightarrow> Time) \<Rightarrow> World \<Rightarrow> World \<Rightarrow> bool" where
  "progress clk w w' =
     (lastProcessedDate w' = lastProcessedDate w \<and> outbox w' = outbox w
      \<and> ticks w \<le> ticks w'
      \<and> closing_docs (db w') = closing_docs (db w) \<and> failure (db w') = failure (db w)
      \<and> (\<exists>new. logged w' = logged w @ new
            \<and> LogStartingDailyReport \<notin> set new \<and> LogCheckingRealtime \<notin> set new)
      \<and> (\<forall>s. lastAlertSentMap w s \<noteq> None \<longrightarrow> lastAlertSentMap w' s \<noteq> None)
      \<and> (\<forall>s t. lastAlertSentMap w' s = Some t \<longrightarrow>
            lastAlertSentMap w s = Some t \<or> (\<exists>n. ticks w \<le> n \<and> n < ticks w' \<and> t = clk n)))"

text \<open>The alert map of \<open>w'\<close> holds for the symbol a clock reading taken since \<open>w\<close>.\<close>

definition marked_during :: "(nat \<Rightarrow> Time) \<Rightarrow> World \<Rightarrow> World \<Rightarrow> string \<Rightarrow> bool" where
  "marked_during clk w w' symbol =
     (\<exists>n. ticks w \<le> n \<and> n < ticks w' \<and> lastAlertSentMap w' symbol = Some (clk n))"

text \<open>
  The gate is open for the symbol at every clock reading from \<open>w\<close> on: the map has no
  entry for it or an entry of another calendar date than any of these readings. And the
  gate is shut at every such reading: the entry has the date of each of them.
\<close>

definition gate_open_from :: "(nat \<Rightarrow> Time) \<Rightarrow> World \<Rightarrow> string \<Rightarrow> bool" where
  "gate_open_from clk w symbol =
     (case lastAlertSentMap w symbol of
        None \<Rightarrow> True
      | Some t \<Rightarrow> (\<forall>n. ticks w \<le> n \<longrightarrow> Format_date t \<noteq> Format_date (clk n)))"

definition gate_shut_from :: "(nat \<Rightarrow> Time) \<Rightarrow> World \<Rightarrow> string \<Rightarrow> bool" where
  "gate_shut_from clk w symbol =
     (case lastAlertSentMap w symbol of
        None \<Rightarrow> False
      | Some t \<Rightarrow> (\<forall>n. ticks w \<le> n \<longrightarrow> Format_date t = Format_date (clk n)))"

text \<open>The time of a tick: the clock reading of \<open>checkAndProcess\<close>, in the scheduler's zone.\<close>

definition tick_now :: "Env \<Rightarrow> World \<Rightarrow> Time" where
  "tick_now env w = In_loc env (clock env (ticks w))"

text \<open>The first block of \<open>checkAndProcess\<close>, the daily report, from the state \<open>w1\<close>.\<close>

definition daily_transition :: "Env \<Rightarrow> Config \<Rightarrow> Time \<Rightarrow> World \<Rightarrow> World" where
  "daily_transition env config now w1 =
     (if Hour now = CheckHour config \<and> Minute now < checkInterval
         \<and> lastProcessedDate w1 \<noteq> Some (Format_date now)
      then
        (let wa = sendDailyReport env (log_Printf LogStartingDailyReport w1);
             wb = wa\<lparr>lastProcessedDate := Some (Format_date now)\<rparr>;
             wc = log_Printf (LogDailyReportProcessed (lastProcessedDate wb)) wb
         in resetAlertMap wc)
      else w1)"




text \<open>The log of \<open>w'\<close> is the log of \<open>w\<close> and lines that announce no transition.\<close>

definition log_grows :: "World \<Rightarrow> World \<Rightarrow> bool" where
  "log_grows w w' =
     (\<exists>new. logged w' = logged w @ new
        \<and> LogStartingDailyReport \<notin> set new \<and> LogCheckingRealtime \<notin> set new)"

text \<open>The batch of alerts a sweep collects from the state \<open>w\<close>, when its fetch succeeds.\<close>

definition sweep_batch :: "Env \<Rightarrow> World \<Rightarrow> PriceAlert list" where
  "sweep_batch env w =
     (case fetchAllPrices (realtimeFetch env) w of
        (Inl err, w1) \<Rightarrow> []
      | (Inr prices, w1) \<Rightarrow> fst (sweep_loop (ParseFloat env) (clock env) prices [] w1))"

text \<open>
  The invariant of the semaphore: the channel \<^verbatim>\<open>sem\<close> holds one element for each worker
  between its send and its deferred receive, and never more than its capacity.
\<close>

definition sem_inv :: "int \<Rightarrow> goroutines \<Rightarrow> bool" where
  "sem_inv limit c =
     (sem c = length (filter holding (workers c)) \<and> (0 \<le> limit \<longrightarrow> int (sem c) \<le> limit))"


text \<open>Workers whose result is sent, and workers that have called \<^verbatim>\<open>wg.Done()\<close>.\<close>

fun past_send :: "string \<times> worker_pc \<Rightarrow> bool" where
  "past_send (symbol, AtRelease) = True"
| "past_send (symbol, AtDone) = True"
| "past_send (symbol, Exited) = True"
| "past_send (symbol, pc) = False"

fun exited :: "string \<times> worker_pc \<Rightarrow> bool" where
  "exited (symbol, Exited) = True"
| "exited (symbol, pc) = False"

text \<open>The result the i-th worker builds from what \<^verbatim>\<open>FetchPrice\<close> returns to it.\<close>

definition worker_result ::
  "(nat \<Rightarrow> string \<Rightarrow> string \<times> error option) \<Rightarrow> string list \<Rightarrow> nat \<Rightarrow> PriceResult" where
  "worker_result fetch tickers i =
     \<lparr>Symbol = tickers ! i,
      Price = fst (fetch i (url_of (GetURLs tickers) (tickers ! i))),
      Error = snd (fetch i (url_of (GetURLs tickers) (tickers ! i)))\<rparr>"

text \<open>
  Invariants of the goroutines. Of the starting loop: the i-th worker has the i-th ticker,
  and the closing goroutine starts after the last worker.
\<close>

definition spawn_inv :: "string list \<Rightarrow> goroutines \<Rightarrow> bool" where
  "spawn_inv tickers c =
     (length (workers c) \<le> length tickers
      \<and> (\<forall>i. i < length (workers c) \<longrightarrow> fst (workers c ! i) = tickers ! i)
      \<and> (case main_at c of
            Spawning i \<Rightarrow> length (workers c) = i \<and> closer_at c = NotStarted
          | Ranging \<Rightarrow> length (workers c) = length tickers \<and> closer_at c \<noteq> NotStarted
          | Returned \<Rightarrow> length (workers c) = length tickers \<and> closer_at c \<noteq> NotStarted))"

text \<open>
  Of the wait group: its counter is the number of workers that have not called
  \<^verbatim>\<open>wg.Done()\<close>; once \<^verbatim>\<open>wg.Wait()\<close> has returned all workers have; the channel is closed
  by the closing goroutine only; nothing has panicked.
\<close>

definition wg_inv :: "goroutines \<Rightarrow> bool" where
  "wg_inv c =
     (wg c = int (length (filter (\<lambda>w. \<not> exited w) (workers c)))
      \<and> (closer_at c = Closing \<or> closer_at c = Finished \<longrightarrow> list_all exited (workers c))
      \<and> (closed c \<longleftrightarrow> closer_at c = Finished)
      \<and> \<not> panicked c)"

text \<open>
  Of the results: the buffer holds no more results than workers have sent; every result
  in the buffer, in the map or about to be sent is the result of a worker; the map keeps
  a result under its own symbol; and the result of a worker that has sent is in the
  buffer or its symbol is in the map.
\<close>

definition res_inv ::
  "(nat \<Rightarrow> string \<Rightarrow> string \<times> error option) \<Rightarrow> string list \<Rightarrow> goroutines \<Rightarrow> bool" where
  "res_inv fetch tickers c =
     (length (results c) \<le> length (filter past_send (workers c))
      \<and> (\<forall>r \<in> set (results c). \<exists>i. i < length tickers \<and> r = worker_result fetch tickers i)
      \<and> (\<forall>s r. priceMap c s = Some r \<longrightarrow>
            Symbol r = s \<and> (\<exists>i. i < length tickers \<and> r = worker_result fetch tickers i))
      \<and> (\<forall>i. i < length (workers c) \<and> past_send (workers c ! i) \<longrightarrow>
            (\<exists>r \<in> set (results c). Symbol r = tickers ! i) \<or> priceMap c (tickers ! i) \<noteq> None)
      \<and> (\<forall>i r. i < length (workers c) \<and> snd (workers c ! i) = AtSend r \<longrightarrow>
            r = worker_result fetch tickers i))"

text \<open>
  Of the return: the call has returned exactly when the caller is past its second loop,
  and then with the map, no error, the channel closed and drained.
\<close>

definition ret_inv :: "goroutines \<Rightarrow> bool" where
  "ret_inv c =
     (case returned c of
        None \<Rightarrow> main_at c \<noteq> Returned
      | Some (m, e) \<Rightarrow>
          main_at c = Returned \<and> e = None \<and> m = priceMap c \<and> results c = [] \<and> closed c)"

definition fpc_inv ::
  "(nat \<Rightarrow> string \<Rightarrow> string \<times> error option) \<Rightarrow> string list \<Rightarrow> int \<Rightarrow> goroutines \<Rightarrow> bool" where
  "fpc_inv fetch tickers limit c =
     (sem_inv limit c \<and> spawn_inv tickers c \<and> wg_inv c \<and> res_inv fetch tickers c \<and> ret_inv c)"

text \<open>The steps a state still has to take before the call has returned.\<close>

fun worker_steps :: "string \<times> worker_pc \<Rightarrow> nat" where
  "worker_steps (symbol, AtAcquire) = 5"
| "worker_steps (symbol, AtFetch) = 4"
| "worker_steps (symbol, AtSend r) = 3"
| "worker_steps (symbol, AtRelease) = 2"
| "worker_steps (symbol, AtDone) = 1"
| "worker_steps (symbol, Exited) = 0"

fun closer_steps :: "closer_pc \<Rightarrow> nat" where
  "closer_steps NotStarted = 3"
| "closer_steps Waiting = 2"
| "closer_steps Closing = 1"
| "closer_steps Finished = 0"

definition steps_left :: "string list \<Rightarrow> goroutines \<Rightarrow> nat" where
  "steps_left tickers c =
     sum_list (map worker_steps (workers c)) + 6 * (length tickers - length (workers c))
     + closer_steps (closer_at c)
     + (length tickers - length (filter past_send (workers c))) + length (results c)
     + (if main_at c = Returned then 0 else 1)"

section \<open>Concrete inputs\<close>

text \<open>
  \<^verbatim>\<open>NewPriceFetcher()\<close>: two minutes per attempt, \<^verbatim>\<open>MaxRetries\<close> 3, five seconds between
  attempts (durations in nanoseconds).
\<close>

definition NewPriceFetcher :: PriceFetcher where
  "NewPriceFetcher = \<lparr>FetchTimeout = 120000000000, MaxRetries = 3, RetryInterval = 5000000000\<rparr>"

text \<open>A browser whose every run ends at the deadline, and one whose every run reads \<open>text\<close>.\<close>

definition always_times_out :: "string \<Rightarrow> int \<Rightarrow> string \<Rightarrow> string \<times> error option" where
  "always_times_out url attempt price = (price, Some DeadlineExceeded)"

definition succeeds_with :: "string \<Rightarrow> string \<Rightarrow> int \<Rightarrow> string \<Rightarrow> string \<times> error option" where
  "succeeds_with text url attempt price = (text, None)"

text \<open>Friday 15 March 2024 at 07:00 and at 21:30, and Saturday 16 March 2024 at 07:00.\<close>

definition fri_0700 :: Time where
  "fri_0700 = \<lparr>Unix = 1710486000, Year = 2024, Month = 3, Day = 15, Hour = 7, Minute = 0,
                Weekday = Friday\<rparr>"

definition fri_2130 :: Time where
  "fri_2130 = \<lparr>Unix = 1710538200, Year = 2024, Month = 3, Day = 15, Hour = 21, Minute = 30,
                Weekday = Friday\<rparr>"

definition sat_0700 :: Time where
  "sat_0700 = \<lparr>Unix = 1710572400, Year = 2024, Month = 3, Day = 16, Hour = 7, Minute = 0,
                Weekday = Saturday\<rparr>"

text \<open>A clock that shows Friday 07:00 for its first ten readings and Saturday 07:00 after.\<close>

definition clock_rollover :: "nat \<Rightarrow> Time" where
  "clock_rollover n = (if n < 10 then fri_0700 else sat_0700)"

text \<open>The process at startup, on an empty collection.\<close>

definition startup :: World where
  "startup = \<lparr>lastProcessedDate = None, lastAlertSentMap = Map.empty,
               db = \<lparr>stocks = [], failure = None\<rparr>, ticks = 0, logged = [], outbox = []\<rparr>"

text \<open>
  \<^verbatim>\<open>strconv.ParseFloat\<close> on the strings of decimal digits and on those with a decimal
  point among the digits, which is all the examples below parse: the result is the
  \<^verbatim>\<open>float64\<close> nearest to the decimal number. Every other string is refused here.
\<close>

fun position :: "char \<Rightarrow> string \<Rightarrow> nat \<Rightarrow> nat option" where
  "position c [] n = None"
| "position c (x # xs) n = (if c = x then Some n else position c xs (Suc n))"

definition digit_value :: "char \<Rightarrow> nat option" where
  "digit_value c = position c ''0123456789'' 0"

fun parse_digits :: "string \<Rightarrow> nat \<Rightarrow> nat option" where
  "parse_digits [] acc = Some acc"
| "parse_digits (c # cs) acc =
     (case digit_value c of
        None \<Rightarrow> None
      | Some d \<Rightarrow> parse_digits cs (10 * acc + d))"

definition ParseFloat_digits :: parser where
  "ParseFloat_digits s =
     (if s = [] then Inl (ExternalError ''invalid syntax'')
      else case parse_digits s 0 of
             None \<Rightarrow> Inl (ExternalError ''invalid syntax'')
           | Some n \<Rightarrow> Inr (round64 False (real n)))"

definition ParseFloat_decimal :: parser where
  "ParseFloat_decimal s =
     (let ip = takeWhile (\<lambda>c. c \<noteq> CHR ''.'') s;
          fp = drop (Suc (length ip)) s
      in if ip = [] \<and> fp = [] then Inl (ExternalError ''invalid syntax'')
         else case (parse_digits ip 0, parse_digits fp 0) of
                (Some a, Some b) \<Rightarrow>
                  Inr (round64 False ((real a * 10 ^ length fp + real b) / 10 ^ length fp))
              | _ \<Rightarrow> Inl (ExternalError ''invalid syntax''))"

text \<open>
  A collection that holds a closing price of 100 for GOOGL and of 0 for TSLA, and nothing
  for any other symbol.
\<close>

definition with_closings :: World where
  "with_closings = startup\<lparr>db :=
     \<lparr>stocks = [\<lparr>doc_Symbol = ''GOOGL'', doc_Price = ''100'', Timestamp = fri_0700,
                   IsClosing = True\<rparr>,
                 \<lparr>doc_Symbol = ''TSLA'', doc_Price = ''0'', Timestamp = fri_0700,
                   IsClosing = True\<rparr>],
       failure = None\<rparr>\<rparr>"

text \<open>
  A collection that holds a closing price of 13.40 for AAPL and of 51.00 for MSFT, as the
  strings the storage keeps.
\<close>

definition with_decimal_closings :: World where
  "with_decimal_closings = startup\<lparr>db :=
     \<lparr>stocks = [\<lparr>doc_Symbol = ''AAPL'', doc_Price = ''13.40'', Timestamp = fri_0700,
                   IsClosing = True\<rparr>,
                 \<lparr>doc_Symbol = ''MSFT'', doc_Price = ''51.00'', Timestamp = fri_0700,
                   IsClosing = True\<rparr>],
       failure = None\<rparr>\<rparr>"

text \<open>\<^verbatim>\<open>DefaultConfig()\<close>: the report hour 7 and the time zone, the fields the scheduler reads.\<close>

definition DefaultConfig :: Config where
  "DefaultConfig = \<lparr>CheckHour = 7, TimeZone = ''Asia/Seoul''\<rparr>"

text \<open>Thursday 14 March 2024 at 21:30.\<close>

definition thu_2130 :: Time where
  "thu_2130 = \<lparr>Unix = 1710451800, Year = 2024, Month = 3, Day = 14, Hour = 21, Minute = 30,
                Weekday = Thursday\<rparr>"

text \<open>
  The state on Thursday evening: the report of Thursday is processed and an alert for AAPL
  was sent at 21:30.
\<close>

definition thursday_evening :: World where
  "thursday_evening =
     startup\<lparr>lastProcessedDate := Some (2024, 3, 14),
             lastAlertSentMap := [''AAPL'' \<mapsto> thu_2130]\<rparr>"

text \<open>Results of \<^verbatim>\<open>FetchPriceConcurrent\<close>: a failed fetch and a fetched price.\<close>

definition failed_fetch :: "string \<Rightarrow> string \<times> PriceResult" where
  "failed_fetch symbol =
     (symbol, \<lparr>Symbol = symbol, Price = '''',
               Error = Some (WrapV ErrPriceFetchFailed DeadlineExceeded)\<rparr>)"

definition fetched :: "string \<Rightarrow> string \<Rightarrow> string \<times> PriceResult" where
  "fetched symbol price = (symbol, \<lparr>Symbol = symbol, Price = price, Error = None\<rparr>)"

text \<open>
  A Friday on which every fetch of both cycles fails (the clock shows 07:00, the scheduler
  runs in the zone of the clock).
\<close>

definition env_all_fail :: Env where
  "env_all_fail =
     \<lparr>clock = clock_rollover, In_loc = (\<lambda>t. t), ParseFloat = ParseFloat_digits,
      dailyFetch = ([failed_fetch ''AAPL'', failed_fetch ''GOOGL''], None), dailySend = None,
      realtimeFetch = ([failed_fetch ''AAPL'', failed_fetch ''GOOGL''], None),
      realtimeSend = None\<rparr>"

text \<open>
  The same Friday when the fetch of AAPL fails, GOOGL is fetched at 106, and the
  messenger fails to send.
\<close>

definition env_googl :: Env where
  "env_googl =
     \<lparr>clock = clock_rollover, In_loc = (\<lambda>t. t), ParseFloat = ParseFloat_digits,
      dailyFetch = ([failed_fetch ''AAPL'', fetched ''GOOGL'' ''106''], None),
      dailySend = Some (ErrorString ''failed to send message''),
      realtimeFetch = ([failed_fetch ''AAPL'', fetched ''GOOGL'' ''106''], None),
      realtimeSend = Some (ErrorString ''failed to send message'')\<rparr>"

text \<open>A Saturday: the clock shows Saturday 07:00 at every reading.\<close>

definition env_saturday :: Env where
  "env_saturday = env_googl\<lparr>clock := (\<lambda>n. sat_0700)\<rparr>"







text \<open>The alert for GOOGL at 106 against the closing price 100.\<close>

definition googl_alert :: PriceAlert where
  "googl_alert = \<lparr>alert_Symbol = ''GOOGL'', PreviousPrice = Finite False 100,
                   CurrentPrice = Finite False 106, PercentChange = Finite False 6,
                   alert_Timestamp = fri_0700\<rparr>"

text \<open>
  Three tickers, a fetch that succeeds with 106 for every worker, and schedules: the
  caller starts the three workers and the closing goroutine and the first two workers
  take a slot; then the first worker finishes its fetch, sends its result and gives its
  slot back.
\<close>

definition three_tickers :: "string list" where
  "three_tickers = [''AAPL'', ''GOOGL'', ''AMZN'']"

definition fetch_106 :: "nat \<Rightarrow> string \<Rightarrow> string \<times> error option" where
  "fetch_106 i url = (''106'', None)"

definition fetch_fails :: "nat \<Rightarrow> string \<Rightarrow> string \<times> error option" where
  "fetch_fails i url = ('''', Some (WrapV ErrPriceFetchFailed DeadlineExceeded))"

definition sched_two_slots_taken :: "actor list" where
  "sched_two_slots_taken = [Main, Main, Main, Main, Worker 0, Worker 1]"

definition sched_slot_freed :: "actor list" where
  "sched_slot_freed = sched_two_slots_taken @ [Worker 0, Worker 0, Worker 0]"

text \<open>The schedule of a call with no ticker: start the closing goroutine, let it close.\<close>

definition sched_no_ticker :: "actor list" where
  "sched_no_ticker = [Main, Closer, Closer, Main]"

text \<open>A schedule of a call with one ticker that runs to the return.\<close>

definition sched_one_ticker :: "actor list" where
  "sched_one_ticker =
     [Main, Main, Worker 0, Worker 0, Worker 0, Worker 0, Worker 0, Closer, Closer, Main, Main]"

section \<open>Computing with float64\<close>

declare bits.simps [simp del]

lemma bits_numeral [simp]:
  "bits 0 = 0"
  "bits (Suc 0) = 1"
  "bits (numeral Num.One) = 1"
  "bits (numeral (Num.Bit0 k)) = Suc (bits (numeral k))"
  "bits (numeral (Num.Bit1 k)) = Suc (bits (numeral k))"
proof -
  show "bits 0 = 0" by (simp add: bits.simps)
  show "bits (Suc 0) = 1" by (simp add: bits.simps)
  show "bits (numeral Num.One) = 1" by (simp add: bits.simps)
  have "numeral (Num.Bit0 k) div (2::nat) = numeral k"
    by (metis numeral_Bit0_div_2)
  then show "bits (numeral (Num.Bit0 k)) = Suc (bits (numeral k))"
    by (subst bits.simps) simp
  have "numeral (Num.Bit1 k) div (2::nat) = numeral k"
    by (metis numeral_Bit1_div_2)
  then show "bits (numeral (Num.Bit1 k)) = Suc (bits (numeral k))"
    by (subst bits.simps) simp
qed

lemmas f64_eval =
  round64_def ilog2_def pow2_def round_even_def signed_def f64_sub_def Let_def

text \<open>
  The sum of the \<^verbatim>\<open>float64\<close> values of 0.1 and 0.2 is the \<^verbatim>\<open>float64\<close> printed
  0.30000000000000004, and 6 is 0.06 times 100.
\<close>

lemma round64_examples:
  "round64 False (1 / 10) = Finite False (3602879701896397 / 36028797018963968)"
  "round64 False (2 / 10) = Finite False (3602879701896397 / 18014398509481984)"
  "f64_add (Finite False (3602879701896397 / 36028797018963968)) (Finite False (3602879701896397 / 18014398509481984))
     = Finite False (1351079888211149 / 4503599627370496)"
  "round64 False (3 / 10) = Finite False (5404319552844595 / 18014398509481984)"
  "f64_div (Finite False 6) (Finite False 100) = Finite False (1080863910568919 / 18014398509481984)"
  "f64_mul (Finite False (1080863910568919 / 18014398509481984)) (Finite False 100) = Finite False 6"
  by (simp_all add: f64_eval)


section \<open>The alert gate\<close>

lemma canSendAlert_fst:
  "fst (canSendAlert clk w symbol) \<longleftrightarrow>
     (case lastAlertSentMap w symbol of
        None \<Rightarrow> True
      | Some lastSent \<Rightarrow> Format_date lastSent \<noteq> Format_date (clk (ticks w)))"
  by (auto simp: canSendAlert_def time_Now_def Format_date_def split: option.splits)

lemma markAlertSent_map:
  "lastAlertSentMap (markAlertSent clk w symbol) = (lastAlertSentMap w)(symbol \<mapsto> clk (ticks w))"
  by (simp add: markAlertSent_def time_Now_def)

text \<open>
  Claim C1. \<open>canSendAlert\<close> answers true exactly when the map has no entry for the symbol
  or the entry differs from the current time in its year, month or day of the month. So
  once \<open>markAlertSent\<close> has stored the reading \<open>clk (ticks w)\<close> for the symbol, in every
  later state \<open>w'\<close> that still holds this entry \<open>canSendAlert\<close> answers true exactly when
  the calendar date of the clock differs from the date of the marking, however much time
  has passed.
\<close>

theorem canSendAlert_calendar_date:
  "(fst (canSendAlert clk w symbol) \<longleftrightarrow>
      (lastAlertSentMap w symbol = None \<or>
       (\<exists>lastSent. lastAlertSentMap w symbol = Some lastSent \<and>
          (Year lastSent \<noteq> Year (clk (ticks w)) \<or> Month lastSent \<noteq> Month (clk (ticks w))
             \<or> Day lastSent \<noteq> Day (clk (ticks w))))))
   \<and> (lastAlertSentMap w' symbol = lastAlertSentMap (markAlertSent clk w symbol) symbol \<longrightarrow>
        (fst (canSendAlert clk w' symbol) \<longleftrightarrow>
           Format_date (clk (ticks w')) \<noteq> Format_date (clk (ticks w))))"
  by (auto simp: canSendAlert_fst markAlertSent_map Format_date_def split: option.splits)

theorem canSendAlert_calendar_date_witness:
  "lastAlertSentMap startup ''AAPL'' = None
   \<and> fst (canSendAlert clock_rollover startup ''AAPL'')
   \<and> \<not> fst (canSendAlert clock_rollover
              ((markAlertSent clock_rollover startup ''AAPL'')\<lparr>ticks := 5\<rparr>) ''AAPL'')
   \<and> fst (canSendAlert clock_rollover
            ((markAlertSent clock_rollover startup ''AAPL'')\<lparr>ticks := 10\<rparr>) ''AAPL'')"
proof -
  have e: "lastAlertSentMap startup ''AAPL'' = None" by (simp add: startup_def)
  have d5: "Format_date (clock_rollover 5) = Format_date (clock_rollover (ticks startup))"
    by (simp add: clock_rollover_def startup_def)
  have d10: "Format_date (clock_rollover 10) \<noteq> Format_date (clock_rollover (ticks startup))"
    by (simp add: clock_rollover_def startup_def Format_date_def fri_0700_def sat_0700_def)
  from canSendAlert_calendar_date [of clock_rollover startup "''AAPL''" startup] e
  have 1: "fst (canSendAlert clock_rollover startup ''AAPL'')" by simp
  from canSendAlert_calendar_date [of clock_rollover startup "''AAPL''"
      "(markAlertSent clock_rollover startup ''AAPL'')\<lparr>ticks := 5\<rparr>"] d5
  have 2: "\<not> fst (canSendAlert clock_rollover
              ((markAlertSent clock_rollover startup ''AAPL'')\<lparr>ticks := 5\<rparr>) ''AAPL'')"
    by simp
  from canSendAlert_calendar_date [of clock_rollover startup "''AAPL''"
      "(markAlertSent clock_rollover startup ''AAPL'')\<lparr>ticks := 10\<rparr>"] d10
  have 3: "fst (canSendAlert clock_rollover
            ((markAlertSent clock_rollover startup ''AAPL'')\<lparr>ticks := 10\<rparr>) ''AAPL'')"
    by simp
  from e 1 2 3 show ?thesis by simp
qed

text \<open>
  Claim C7. Running \<open>resetAlertMap\<close> twice leaves the state that running it once leaves
  (the map and every other variable; the log alone holds the line of the second run), and
  after \<open>resetAlertMap\<close> the gate is open for every symbol, also for one that
  \<open>markAlertSent\<close> had marked before.
\<close>

theorem resetAlertMap_idempotent_opens_gate:
  "resetAlertMap (resetAlertMap w)
     = (resetAlertMap w)\<lparr>logged := logged (resetAlertMap w) @ [LogAlertMapReset]\<rparr>
   \<and> lastAlertSentMap (resetAlertMap (resetAlertMap w)) = lastAlertSentMap (resetAlertMap w)
   \<and> lastAlertSentMap (resetAlertMap w) = Map.empty
   \<and> (\<forall>symbol. canSendAlert clk (resetAlertMap w) symbol = (True, resetAlertMap w))
   \<and> fst (canSendAlert clk (resetAlertMap (markAlertSent clk w symbol)) symbol)"
  by (simp add: resetAlertMap_def log_Printf_def canSendAlert_def)

theorem resetAlertMap_idempotent_opens_gate_witness:
  "\<not> fst (canSendAlert clock_rollover (markAlertSent clock_rollover startup ''AAPL'') ''AAPL'')
   \<and> fst (canSendAlert clock_rollover
            (resetAlertMap (markAlertSent clock_rollover startup ''AAPL'')) ''AAPL'')
   \<and> lastAlertSentMap (resetAlertMap (resetAlertMap (markAlertSent clock_rollover startup ''AAPL'')))
       = Map.empty"
proof -
  note T = resetAlertMap_idempotent_opens_gate
    [of "markAlertSent clock_rollover startup ''AAPL''" clock_rollover "''AAPL''"]
  have 1: "\<not> fst (canSendAlert clock_rollover
      (markAlertSent clock_rollover startup ''AAPL'') ''AAPL'')"
    by (simp add: canSendAlert_fst markAlertSent_map markAlertSent_def time_Now_def
        clock_rollover_def startup_def)
  from T have 2: "fst (canSendAlert clock_rollover
      (resetAlertMap (markAlertSent clock_rollover startup ''AAPL'')) ''AAPL'')"
    by simp
  from T have 3: "lastAlertSentMap
      (resetAlertMap (resetAlertMap (markAlertSent clock_rollover startup ''AAPL''))) = Map.empty"
    by simp
  from 1 2 3 show ?thesis by simp
qed

section \<open>The price-change evaluator\<close>

lemma checkPriceChange_fst:
  "fst (checkPriceChange parse clk w symbol s) =
     (case parse s of
        Inl err \<Rightarrow> None
      | Inr cur \<Rightarrow>
          (case GetLatestClosingPrice parse (db w) symbol of
             Inl err \<Rightarrow> None
           | Inr prev \<Rightarrow>
               if \<not> f64_eq prev (Finite False 0)
                  \<and> f64_ge (f64_abs (f64_mul (f64_div (f64_sub cur prev) prev) (Finite False 100)))
                        alertThreshold
               then Some \<lparr>alert_Symbol = symbol, PreviousPrice = prev, CurrentPrice = cur,
                      PercentChange = f64_mul (f64_div (f64_sub cur prev) prev) (Finite False 100),
                      alert_Timestamp = clk (ticks w)\<rparr>
               else None))"
  by (simp add: checkPriceChange_def Let_def time_Now_def split: sum.splits prod.splits)

lemma ParseFloat_digits_examples:
  "ParseFloat_digits ''106'' = Inr (Finite False 106)"
  "ParseFloat_digits ''104'' = Inr (Finite False 104)"
  "ParseFloat_digits ''100'' = Inr (Finite False 100)"
  "ParseFloat_digits ''0'' = Inr (Finite False 0)"
  by (simp_all add: ParseFloat_digits_def digit_value_def f64_eval)

lemma GetLatestClosingPrice_with_closings:
  "GetLatestClosingPrice ParseFloat_digits (db with_closings) ''GOOGL'' = Inr (Finite False 100)"
  "GetLatestClosingPrice ParseFloat_digits (db with_closings) ''TSLA'' = Inr (Finite False 0)"
  "GetLatestClosingPrice ParseFloat_digits (db with_closings) ''AAPL''
     = Inl (WrapS ErrNoClosingPriceFound ''AAPL'')"
  by (simp_all add: GetLatestClosingPrice_def with_closings_def startup_def
      ParseFloat_digits_examples)

text \<open>
  The \<^verbatim>\<open>float64\<close> values of the decimal strings 14.07, 13.40, 53.55 and 51.00.
\<close>

lemma ParseFloat_decimal_examples:
  "ParseFloat_decimal ''14.07'' = Inr (Finite False (1980176461159465 / 140737488355328))"
  "ParseFloat_decimal ''13.40'' = Inr (Finite False (7543529375845581 / 562949953421312))"
  "ParseFloat_decimal ''53.55'' = Inr (Finite False (3768246250713907 / 70368744177664))"
  "ParseFloat_decimal ''51.00'' = Inr (Finite False 51)"
  by (simp_all add: ParseFloat_decimal_def digit_value_def f64_eval)

lemma GetLatestClosingPrice_with_decimal_closings:
  "GetLatestClosingPrice ParseFloat_decimal (db with_decimal_closings) ''AAPL''
     = Inr (Finite False (7543529375845581 / 562949953421312))"
  "GetLatestClosingPrice ParseFloat_decimal (db with_decimal_closings) ''MSFT''
     = Inr (Finite False 51)"
  by (simp_all add: GetLatestClosingPrice_def with_decimal_closings_def startup_def
      ParseFloat_decimal_examples)

text \<open>
  The percent change the program computes from 13.40 to 14.07 is the \<^verbatim>\<open>float64\<close> 5, and
  from 51.00 to 53.55 it is the \<^verbatim>\<open>float64\<close> printed 4.999999999999995.
\<close>

lemma percent_change_examples:
  "f64_mul
     (f64_div
        (f64_sub (Finite False (1980176461159465 / 140737488355328))
           (Finite False (7543529375845581 / 562949953421312)))
        (Finite False (7543529375845581 / 562949953421312)))
     (Finite False 100) = Finite False 5"
  "f64_mul
     (f64_div (f64_sub (Finite False (3768246250713907 / 70368744177664)) (Finite False 51))
        (Finite False 51))
     (Finite False 100) = Finite False (2814749767106557 / 562949953421312)"
  "f64_mul
     (f64_div (f64_sub (Finite False 106) (Finite False 100)) (Finite False 100))
     (Finite False 100) = Finite False 6"
  "f64_mul
     (f64_div (f64_sub (Finite False 104) (Finite False 100)) (Finite False 100))
     (Finite False 100) = Finite False 4"
  by (simp_all add: f64_eval)

text \<open>
  Claim C2 as stated fails when the percent change is read as a number. From the closing
  price 51.00 to the price 53.55 the change is 5 percent, which is at least the
  threshold, and \<open>checkPriceChange\<close> returns no alert. In the other direction, the values
  that \<^verbatim>\<open>ParseFloat\<close> gives for 14.07 and 13.40 differ by less than 5 percent, and
  \<open>checkPriceChange\<close> returns an alert, with the percent change 5.
\<close>

theorem checkPriceChange_exact_threshold_counterexample:
  "\<bar>(5355 / 100 - 5100 / 100) / (5100 / 100) * 100 :: real\<bar> \<ge> 5
   \<and> fst (checkPriceChange ParseFloat_decimal clock_rollover with_decimal_closings
            ''MSFT'' ''53.55'') = None
   \<and> (\<exists>cur prev. ParseFloat_decimal ''14.07'' = Inr (Finite False cur)
         \<and> GetLatestClosingPrice ParseFloat_decimal (db with_decimal_closings) ''AAPL''
             = Inr (Finite False prev)
         \<and> \<bar>(cur - prev) / prev * 100\<bar> < 5)
   \<and> map_option PercentChange
        (fst (checkPriceChange ParseFloat_decimal clock_rollover with_decimal_closings
                ''AAPL'' ''14.07'')) = Some (Finite False 5)"
proof -
  have 1: "\<bar>(5355 / 100 - 5100 / 100) / (5100 / 100) * 100 :: real\<bar> \<ge> 5" by simp
  have 2: "fst (checkPriceChange ParseFloat_decimal clock_rollover with_decimal_closings
            ''MSFT'' ''53.55'') = None"
    by (simp add: checkPriceChange_fst ParseFloat_decimal_examples
        GetLatestClosingPrice_with_decimal_closings percent_change_examples alertThreshold_def
        signed_def)
  have "\<bar>(1980176461159465 / 140737488355328 - 7543529375845581 / 562949953421312) / (7543529375845581 / 562949953421312)
          * 100 :: real\<bar> < 5"
    by simp
  then have 3: "\<exists>cur prev. ParseFloat_decimal ''14.07'' = Inr (Finite False cur)
         \<and> GetLatestClosingPrice ParseFloat_decimal (db with_decimal_closings) ''AAPL''
             = Inr (Finite False prev)
         \<and> \<bar>(cur - prev) / prev * 100\<bar> < 5"
    unfolding ParseFloat_decimal_examples GetLatestClosingPrice_with_decimal_closings
    by blast
  have 4: "map_option PercentChange
        (fst (checkPriceChange ParseFloat_decimal clock_rollover with_decimal_closings
                ''AAPL'' ''14.07'')) = Some (Finite False 5)"
    by (simp add: checkPriceChange_fst ParseFloat_decimal_examples
        GetLatestClosingPrice_with_decimal_closings percent_change_examples alertThreshold_def
        signed_def)
  from 1 2 3 4 show ?thesis by blast
qed

text \<open>
  Claim C2, amended. \<open>checkPriceChange\<close> returns an alert exactly when the string parses,
  the lookup of the latest closing price succeeds with a price that does not compare
  equal to zero, and the percent change as the program computes it in \<^verbatim>\<open>float64\<close>
  arithmetic (the difference, the quotient and the product each rounded to nearest) has
  an absolute value that compares at least 5; the alert then holds the symbol, the two
  prices and this percent change. With previous 100, current 106 gives an alert whose
  percent change is 6 and current 104 gives none; a previous price of zero (of either
  sign), a failed lookup, and in particular a symbol with no closing document (for which
  the lookup fails with \<^verbatim>\<open>ErrNoClosingPriceFound\<close>) give none whatever the current price;
  and so does a NaN as the current or the previous price.
\<close>

theorem checkPriceChange_alert_iff_float64:
  "((\<exists>alert. fst (checkPriceChange parse clk w symbol s) = Some alert) \<longleftrightarrow>
      (\<exists>cur prev. parse s = Inr cur \<and> GetLatestClosingPrice parse (db w) symbol = Inr prev
          \<and> \<not> f64_eq prev (Finite False 0)
          \<and> f64_ge (f64_abs (f64_mul (f64_div (f64_sub cur prev) prev) (Finite False 100)))
                (Finite False 5)))
   \<and> (\<forall>alert. fst (checkPriceChange parse clk w symbol s) = Some alert \<longrightarrow>
         alert_Symbol alert = symbol
         \<and> parse s = Inr (CurrentPrice alert)
         \<and> GetLatestClosingPrice parse (db w) symbol = Inr (PreviousPrice alert)
         \<and> PercentChange alert
             = f64_mul (f64_div (f64_sub (CurrentPrice alert) (PreviousPrice alert))
                          (PreviousPrice alert)) (Finite False 100))
   \<and> (parse s = Inr (Finite False 106)
        \<and> GetLatestClosingPrice parse (db w) symbol = Inr (Finite False 100) \<longrightarrow>
        (\<exists>alert. fst (checkPriceChange parse clk w symbol s) = Some alert
           \<and> PercentChange alert = Finite False 6 \<and> alert_Symbol alert = symbol
           \<and> PreviousPrice alert = Finite False 100 \<and> CurrentPrice alert = Finite False 106))
   \<and> (parse s = Inr (Finite False 104)
        \<and> GetLatestClosingPrice parse (db w) symbol = Inr (Finite False 100) \<longrightarrow>
        fst (checkPriceChange parse clk w symbol s) = None)
   \<and> ((\<exists>sign. GetLatestClosingPrice parse (db w) symbol = Inr (Finite sign 0)) \<longrightarrow>
        fst (checkPriceChange parse clk w symbol s) = None)
   \<and> ((\<exists>err. GetLatestClosingPrice parse (db w) symbol = Inl err) \<longrightarrow>
        fst (checkPriceChange parse clk w symbol s) = None)
   \<and> (failure (db w) = None
        \<and> filter (\<lambda>x. doc_Symbol x = symbol \<and> IsClosing x) (stocks (db w)) = [] \<longrightarrow>
        GetLatestClosingPrice parse (db w) symbol = Inl (WrapS ErrNoClosingPriceFound symbol))
   \<and> (parse s = Inr NaN \<or> GetLatestClosingPrice parse (db w) symbol = Inr NaN \<longrightarrow>
        fst (checkPriceChange parse clk w symbol s) = None)"
proof (intro conjI)
  show "(\<exists>alert. fst (checkPriceChange parse clk w symbol s) = Some alert) \<longleftrightarrow>
      (\<exists>cur prev. parse s = Inr cur \<and> GetLatestClosingPrice parse (db w) symbol = Inr prev
          \<and> \<not> f64_eq prev (Finite False 0)
          \<and> f64_ge (f64_abs (f64_mul (f64_div (f64_sub cur prev) prev) (Finite False 100)))
                (Finite False 5))"
    by (auto simp: checkPriceChange_fst alertThreshold_def split: sum.splits)
  show "\<forall>alert. fst (checkPriceChange parse clk w symbol s) = Some alert \<longrightarrow>
         alert_Symbol alert = symbol
         \<and> parse s = Inr (CurrentPrice alert)
         \<and> GetLatestClosingPrice parse (db w) symbol = Inr (PreviousPrice alert)
         \<and> PercentChange alert
             = f64_mul (f64_div (f64_sub (CurrentPrice alert) (PreviousPrice alert))
                          (PreviousPrice alert)) (Finite False 100)"
    by (auto simp: checkPriceChange_fst split: sum.splits if_splits)
  show "parse s = Inr (Finite False 106)
        \<and> GetLatestClosingPrice parse (db w) symbol = Inr (Finite False 100) \<longrightarrow>
        (\<exists>alert. fst (checkPriceChange parse clk w symbol s) = Some alert
           \<and> PercentChange alert = Finite False 6 \<and> alert_Symbol alert = symbol
           \<and> PreviousPrice alert = Finite False 100 \<and> CurrentPrice alert = Finite False 106)"
    by (simp add: checkPriceChange_fst alertThreshold_def percent_change_examples signed_def)
  show "parse s = Inr (Finite False 104)
        \<and> GetLatestClosingPrice parse (db w) symbol = Inr (Finite False 100) \<longrightarrow>
        fst (checkPriceChange parse clk w symbol s) = None"
    by (simp add: checkPriceChange_fst alertThreshold_def percent_change_examples signed_def)
  show "(\<exists>sign. GetLatestClosingPrice parse (db w) symbol = Inr (Finite sign 0)) \<longrightarrow>
        fst (checkPriceChange parse clk w symbol s) = None"
    by (auto simp: checkPriceChange_fst signed_def split: sum.splits if_splits)
  show "(\<exists>err. GetLatestClosingPrice parse (db w) symbol = Inl err) \<longrightarrow>
        fst (checkPriceChange parse clk w symbol s) = None"
    by (auto simp: checkPriceChange_fst split: sum.splits)
  show "failure (db w) = None
        \<and> filter (\<lambda>x. doc_Symbol x = symbol \<and> IsClosing x) (stocks (db w)) = [] \<longrightarrow>
        GetLatestClosingPrice parse (db w) symbol = Inl (WrapS ErrNoClosingPriceFound symbol)"
    by (simp add: GetLatestClosingPrice_def)
  show "parse s = Inr NaN \<or> GetLatestClosingPrice parse (db w) symbol = Inr NaN \<longrightarrow>
        fst (checkPriceChange parse clk w symbol s) = None"
  proof
    assume a: "parse s = Inr NaN \<or> GetLatestClosingPrice parse (db w) symbol = Inr NaN"
    have n: "f64_mul (f64_div (f64_sub x NaN) NaN) (Finite False 100) = NaN" for x
      by (cases x) (simp_all add: f64_sub_def)
    have m: "f64_mul (f64_div (f64_sub NaN y) y) (Finite False 100) = NaN" for y
      by (cases y) (simp_all add: f64_sub_def)
    from a show "fst (checkPriceChange parse clk w symbol s) = None"
      by (auto simp: checkPriceChange_fst n m split: sum.splits)
  qed
qed

theorem checkPriceChange_alert_iff_float64_witness:
  "map_option PercentChange
       (fst (checkPriceChange ParseFloat_digits clock_rollover with_closings ''GOOGL'' ''106''))
     = Some (Finite False 6)
   \<and> fst (checkPriceChange ParseFloat_digits clock_rollover with_closings ''GOOGL'' ''104'') = None
   \<and> fst (checkPriceChange ParseFloat_digits clock_rollover with_closings ''TSLA'' ''106'') = None
   \<and> fst (checkPriceChange ParseFloat_digits clock_rollover with_closings ''AAPL'' ''106'') = None
   \<and> (\<exists>alert. fst (checkPriceChange ParseFloat_decimal clock_rollover with_decimal_closings
                     ''AAPL'' ''14.07'') = Some alert)
   \<and> fst (checkPriceChange ParseFloat_decimal clock_rollover with_decimal_closings
            ''MSFT'' ''53.55'') = None"
proof -
  note G = GetLatestClosingPrice_with_closings
  note P = ParseFloat_digits_examples
  note D = ParseFloat_decimal_examples GetLatestClosingPrice_with_decimal_closings
  from checkPriceChange_alert_iff_float64
    [of ParseFloat_digits clock_rollover with_closings "''GOOGL''" "''106''"] P G
  have 1: "map_option PercentChange
       (fst (checkPriceChange ParseFloat_digits clock_rollover with_closings ''GOOGL'' ''106''))
     = Some (Finite False 6)"
    by auto
  from checkPriceChange_alert_iff_float64
    [of ParseFloat_digits clock_rollover with_closings "''GOOGL''" "''104''"] P G
  have 2: "fst (checkPriceChange ParseFloat_digits clock_rollover with_closings
      ''GOOGL'' ''104'') = None"
    by simp
  from checkPriceChange_alert_iff_float64
    [of ParseFloat_digits clock_rollover with_closings "''TSLA''" "''106''"] G
  have 3: "fst (checkPriceChange ParseFloat_digits clock_rollover with_closings
      ''TSLA'' ''106'') = None"
    by blast
  from checkPriceChange_alert_iff_float64
    [of ParseFloat_digits clock_rollover with_closings "''AAPL''" "''106''"] G
  have 4: "fst (checkPriceChange ParseFloat_digits clock_rollover with_closings
      ''AAPL'' ''106'') = None"
    by blast
  from checkPriceChange_alert_iff_float64
    [of ParseFloat_decimal clock_rollover with_decimal_closings "''AAPL''" "''14.07''"]
  have 5: "\<exists>alert. fst (checkPriceChange ParseFloat_decimal clock_rollover
      with_decimal_closings ''AAPL'' ''14.07'') = Some alert"
    by (simp add: D percent_change_examples signed_def)
  from checkPriceChange_alert_iff_float64
    [of ParseFloat_decimal clock_rollover with_decimal_closings "''MSFT''" "''53.55''"]
  have "\<not> (\<exists>alert. fst (checkPriceChange ParseFloat_decimal clock_rollover
      with_decimal_closings ''MSFT'' ''53.55'') = Some alert)"
    by (simp add: D percent_change_examples signed_def)
  then have 6: "fst (checkPriceChange ParseFloat_decimal clock_rollover
      with_decimal_closings ''MSFT'' ''53.55'') = None"
    by simp
  from 1 2 3 4 5 6 show ?thesis by blast
qed

section \<open>The retry loop of FetchPrice\<close>

declare FetchPrice_loop.simps [simp del]

lemma loop_exit:
  "\<not> attempt < MaxRetries pf \<Longrightarrow>
     FetchPrice_loop pf R attempt price err tr =
       (case err of
          Some e \<Rightarrow> (('''', Some (WrapV ErrPriceFetchFailed e)), tr)
        | None \<Rightarrow> if price = '''' then (('''', Some ErrElementNotFound), tr) else ((price, None), tr))"
  by (simp add: FetchPrice_loop.simps)

lemma loop_success:
  "attempt < MaxRetries pf \<Longrightarrow> snd (R attempt price) = None \<Longrightarrow>
     FetchPrice_loop pf R attempt price err tr =
       ((fst (R attempt price), None), retry_trace pf attempt tr)"
  by (subst FetchPrice_loop.simps) (simp add: Let_def retry_trace_def)

lemma loop_fail:
  "attempt < MaxRetries pf \<Longrightarrow> snd (R attempt price) = Some e \<Longrightarrow>
     FetchPrice_loop pf R attempt price err tr =
       FetchPrice_loop pf R (attempt + 1) (fst (R attempt price)) (Some e)
         (retry_trace pf attempt tr
            @ [if errors_Is e Canceled \<or> errors_Is e DeadlineExceeded
               then EvLogTimedOut else EvLogError e])"
  by (subst FetchPrice_loop.simps) (simp add: Let_def retry_trace_def)

lemma attempts_retry_trace:
  "attempts (retry_trace pf attempt tr @ [if c then EvLogTimedOut else EvLogError e])
     = Suc (attempts tr)"
  by (simp add: attempts_def retry_trace_def)

lemma retries_retry_trace:
  "retries (retry_trace pf attempt tr @ [if c then EvLogTimedOut else EvLogError e]) =
     (if attempt > 0 then Suc (retries tr) else retries tr)"
  by (simp add: retries_def retry_trace_def)

lemma loop_all_fail:
  "nat (MaxRetries pf - attempt) = k \<Longrightarrow> 0 \<le> attempt \<Longrightarrow> attempt < MaxRetries pf \<Longrightarrow>
   (\<forall>n q. attempt \<le> n \<and> n < MaxRetries pf \<longrightarrow> (\<exists>e. snd (R n q) = Some e \<and> P e)) \<Longrightarrow>
   (\<exists>e. fst (FetchPrice_loop pf R attempt price err tr) = ('''', Some (WrapV ErrPriceFetchFailed e)) \<and> P e)
   \<and> attempts (snd (FetchPrice_loop pf R attempt price err tr)) = attempts tr + k
   \<and> retries (snd (FetchPrice_loop pf R attempt price err tr)) =
        retries tr + (if attempt = 0 then k - 1 else k)"
proof (induction k arbitrary: attempt price err tr)
  case 0
  then show ?case by simp
next
  case (Suc k)
  from Suc.prems obtain e where e: "snd (R attempt price) = Some e" "P e"
    by (metis order_refl)
  let ?tr = "retry_trace pf attempt tr
            @ [if errors_Is e Canceled \<or> errors_Is e DeadlineExceeded
               then EvLogTimedOut else EvLogError e]"
  have step: "FetchPrice_loop pf R attempt price err tr =
      FetchPrice_loop pf R (attempt + 1) (fst (R attempt price)) (Some e) ?tr"
    using Suc.prems(3) e(1) by (rule loop_fail)
  show ?case
  proof (cases "attempt + 1 < MaxRetries pf")
    case True
    have k: "nat (MaxRetries pf - (attempt + 1)) = k" using Suc.prems(1) by linarith
    have "\<forall>n q. attempt + 1 \<le> n \<and> n < MaxRetries pf \<longrightarrow> (\<exists>e. snd (R n q) = Some e \<and> P e)"
      using Suc.prems(4) by auto
    from Suc.IH [OF k _ True this, of "fst (R attempt price)" "Some e" ?tr] Suc.prems(2)
    show ?thesis
      unfolding step using k True
      by (auto simp: attempts_retry_trace retries_retry_trace)
  next
    case False
    then have k: "k = 0" using Suc.prems by linarith
    show ?thesis
      unfolding step using False e k Suc.prems(2)
      by (auto simp: loop_exit attempts_retry_trace retries_retry_trace)
  qed
qed

lemma loop_result:
  "nat (MaxRetries pf - attempt) = k \<Longrightarrow> attempt < MaxRetries pf \<Longrightarrow>
   (case fst (FetchPrice_loop pf R attempt price err tr) of
      (p, None) \<Rightarrow> (\<exists>n q. attempt \<le> n \<and> n < MaxRetries pf \<and> R n q = (p, None))
    | (p, Some e) \<Rightarrow> p = [] \<and>
        (\<exists>e' q. e = WrapV ErrPriceFetchFailed e' \<and> snd (R (MaxRetries pf - 1) q) = Some e') \<and>
        (\<forall>n. attempt \<le> n \<and> n < MaxRetries pf \<longrightarrow> (\<exists>q. snd (R n q) \<noteq> None)))"
proof (induction k arbitrary: attempt price err tr)
  case 0
  then show ?case by simp
next
  case (Suc k)
  show ?case
  proof (cases "snd (R attempt price)")
    case None
    then have "R attempt price = (fst (R attempt price), None)"
      by (metis prod.collapse)
    with None Suc.prems show ?thesis
      by (auto simp: loop_success intro!: exI [of _ attempt] exI [of _ price])
  next
    case (Some e)
    let ?tr = "retry_trace pf attempt tr
            @ [if errors_Is e Canceled \<or> errors_Is e DeadlineExceeded
               then EvLogTimedOut else EvLogError e]"
    have step: "FetchPrice_loop pf R attempt price err tr =
        FetchPrice_loop pf R (attempt + 1) (fst (R attempt price)) (Some e) ?tr"
      using Suc.prems(2) Some by (rule loop_fail)
    show ?thesis
    proof (cases "attempt + 1 < MaxRetries pf")
      case True
      have k: "nat (MaxRetries pf - (attempt + 1)) = k" using Suc.prems(1) by linarith
      obtain p r where pr:
        "fst (FetchPrice_loop pf R (attempt + 1) (fst (R attempt price)) (Some e) ?tr) = (p, r)"
        by (cases "fst (FetchPrice_loop pf R (attempt + 1) (fst (R attempt price)) (Some e) ?tr)")
      from Suc.IH [OF k True, of "fst (R attempt price)" "Some e" ?tr]
      have ih: "case r of
          None \<Rightarrow> (\<exists>n q. attempt + 1 \<le> n \<and> n < MaxRetries pf \<and> R n q = (p, None))
        | Some e \<Rightarrow> p = [] \<and>
            (\<exists>e' q. e = WrapV ErrPriceFetchFailed e' \<and> snd (R (MaxRetries pf - 1) q) = Some e') \<and>
            (\<forall>n. attempt + 1 \<le> n \<and> n < MaxRetries pf \<longrightarrow> (\<exists>q. snd (R n q) \<noteq> None))"
        by (cases r) (auto simp: pr)
      show ?thesis
      proof (cases r)
        case None
        with ih obtain n q where "attempt + 1 \<le> n" "n < MaxRetries pf" "R n q = (p, None)"
          by auto
        then have "attempt \<le> n \<and> n < MaxRetries pf \<and> R n q = (p, None)" by simp
        then show ?thesis unfolding step pr using None by auto
      next
        case r: (Some e2)
        have "\<exists>q. snd (R n q) \<noteq> None" if "attempt \<le> n" "n < MaxRetries pf" for n
        proof (cases "n = attempt")
          case True
          then show ?thesis using Some by auto
        next
          case False
          then have "attempt + 1 \<le> n" using that by simp
          then show ?thesis using ih r that by simp
        qed
        with ih r show ?thesis unfolding step pr by simp
      qed
    next
      case False
      then have last: "MaxRetries pf - 1 = attempt" using Suc.prems by linarith
      have "\<exists>q. snd (R n q) \<noteq> None" if "attempt \<le> n" "n < MaxRetries pf" for n
      proof -
        have "n = attempt" using that last by linarith
        then show ?thesis using Some by auto
      qed
      with False Some last show ?thesis
        unfolding step by (auto simp: loop_exit)
    qed
  qed
qed

lemma FetchPrice_times_out_eval:
  "FetchPrice NewPriceFetcher always_times_out url =
     (('''', Some (WrapV ErrPriceFetchFailed DeadlineExceeded)),
      [EvLogFetching url, EvRun 0, EvLogTimedOut,
       EvLogRetry 1, EvSleep 5000000000, EvRun 1, EvLogTimedOut,
       EvLogRetry 2, EvSleep 5000000000, EvRun 2, EvLogTimedOut])"
  by (simp add: FetchPrice_def NewPriceFetcher_def always_times_out_def loop_fail loop_exit
      retry_trace_def)

text \<open>
  Claim C3 as stated fails. With \<^verbatim>\<open>MaxRetries\<close> 3 and a browser that always times out,
  \<^verbatim>\<open>FetchPrice\<close> runs the browser three times in all: the first attempt and two retries,
  not three.
\<close>

theorem FetchPrice_retried_MaxRetries_counterexample:
  "attempts (snd (FetchPrice NewPriceFetcher always_times_out ''u'')) = 3
   \<and> retries (snd (FetchPrice NewPriceFetcher always_times_out ''u'')) = 2
   \<and> retries (snd (FetchPrice NewPriceFetcher always_times_out ''u''))
        \<noteq> nat (MaxRetries NewPriceFetcher)"
proof -
  have "MaxRetries NewPriceFetcher = 3" by (simp add: NewPriceFetcher_def)
  then show ?thesis by (simp add: FetchPrice_times_out_eval attempts_def retries_def)
qed

text \<open>
  Claim C3, amended. Let \<^verbatim>\<open>MaxRetries\<close> be at least 1. A call whose attempts all fail with
  a timeout (\<^verbatim>\<open>context.DeadlineExceeded\<close> or \<^verbatim>\<open>context.Canceled\<close>) makes exactly
  \<^verbatim>\<open>MaxRetries\<close> attempts in all, that is the first attempt and \<^verbatim>\<open>MaxRetries - 1\<close> retries,
  and returns the empty string with an error that wraps \<^verbatim>\<open>ErrPriceFetchFailed\<close>. A call whose
  first attempt succeeds makes that one attempt, no retry, and returns its price.
\<close>

theorem FetchPrice_attempt_budget:
  "1 \<le> MaxRetries pf \<Longrightarrow>
     ((\<forall>n q. 0 \<le> n \<and> n < MaxRetries pf \<longrightarrow>
         (\<exists>e. snd (Run url n q) = Some e \<and> (errors_Is e Canceled \<or> errors_Is e DeadlineExceeded)))
      \<longrightarrow> attempts (snd (FetchPrice pf Run url)) = nat (MaxRetries pf)
        \<and> retries (snd (FetchPrice pf Run url)) = nat (MaxRetries pf) - 1
        \<and> (\<exists>e. fst (FetchPrice pf Run url) = ('''', Some (WrapV ErrPriceFetchFailed e))
              \<and> (errors_Is e Canceled \<or> errors_Is e DeadlineExceeded)))
   \<and> (snd (Run url 0 '''') = None
      \<longrightarrow> fst (FetchPrice pf Run url) = (fst (Run url 0 ''''), None)
        \<and> attempts (snd (FetchPrice pf Run url)) = 1
        \<and> retries (snd (FetchPrice pf Run url)) = 0)"
proof (intro conjI impI)
  assume m: "1 \<le> MaxRetries pf"
  assume a: "\<forall>n q. 0 \<le> n \<and> n < MaxRetries pf \<longrightarrow>
         (\<exists>e. snd (Run url n q) = Some e \<and> (errors_Is e Canceled \<or> errors_Is e DeadlineExceeded))"
  have lt: "0 < MaxRetries pf" using m by simp
  note L = loop_all_fail [where pf = pf and attempt = 0 and R = "Run url"
      and P = "\<lambda>e. errors_Is e Canceled \<or> errors_Is e DeadlineExceeded"
      and price = "''''" and err = None and tr = "[EvLogFetching url]", OF refl _ lt]
  from L a show "attempts (snd (FetchPrice pf Run url)) = nat (MaxRetries pf)"
    by (simp add: FetchPrice_def attempts_def)
  from L a show "retries (snd (FetchPrice pf Run url)) = nat (MaxRetries pf) - 1"
    by (simp add: FetchPrice_def retries_def)
  from L a show "\<exists>e. fst (FetchPrice pf Run url) = ('''', Some (WrapV ErrPriceFetchFailed e))
              \<and> (errors_Is e Canceled \<or> errors_Is e DeadlineExceeded)"
    by (simp add: FetchPrice_def)
next
  assume m: "1 \<le> MaxRetries pf" and s: "snd (Run url 0 '''') = None"
  have lt: "0 < MaxRetries pf" using m by simp
  have e: "FetchPrice pf Run url =
      ((fst (Run url 0 ''''), None), retry_trace pf 0 [EvLogFetching url])"
    unfolding FetchPrice_def using lt s by (rule loop_success)
  show "fst (FetchPrice pf Run url) = (fst (Run url 0 ''''), None)" by (simp add: e)
  show "attempts (snd (FetchPrice pf Run url)) = 1" by (simp add: e attempts_def retry_trace_def)
  show "retries (snd (FetchPrice pf Run url)) = 0" by (simp add: e retries_def retry_trace_def)
qed

theorem FetchPrice_attempt_budget_witness:
  "1 \<le> MaxRetries NewPriceFetcher
   \<and> attempts (snd (FetchPrice NewPriceFetcher always_times_out ''u'')) = 3
   \<and> retries (snd (FetchPrice NewPriceFetcher always_times_out ''u'')) = 2
   \<and> (\<exists>e. fst (FetchPrice NewPriceFetcher always_times_out ''u'')
           = ('''', Some (WrapV ErrPriceFetchFailed e)))
   \<and> fst (FetchPrice NewPriceFetcher (succeeds_with ''150.00'') ''u'') = (''150.00'', None)
   \<and> retries (snd (FetchPrice NewPriceFetcher (succeeds_with ''150.00'') ''u'')) = 0"
proof -
  have m: "1 \<le> MaxRetries NewPriceFetcher" by (simp add: NewPriceFetcher_def)
  have a: "\<forall>n q. 0 \<le> n \<and> n < MaxRetries NewPriceFetcher \<longrightarrow>
         (\<exists>e. snd (always_times_out ''u'' n q) = Some e
            \<and> (errors_Is e Canceled \<or> errors_Is e DeadlineExceeded))"
    by (simp add: always_times_out_def)
  have s: "snd (succeeds_with ''150.00'' ''u'' 0 '''') = None" by (simp add: succeeds_with_def)
  from FetchPrice_attempt_budget [OF m, of always_times_out "''u''"] a
  have 1: "attempts (snd (FetchPrice NewPriceFetcher always_times_out ''u'')) = 3
     \<and> retries (snd (FetchPrice NewPriceFetcher always_times_out ''u'')) = 2
     \<and> (\<exists>e. fst (FetchPrice NewPriceFetcher always_times_out ''u'')
           = ('''', Some (WrapV ErrPriceFetchFailed e)))"
    by (auto simp: NewPriceFetcher_def)
  from FetchPrice_attempt_budget [OF m, of "succeeds_with ''150.00''" "''u''"] s
  have 2: "fst (FetchPrice NewPriceFetcher (succeeds_with ''150.00'') ''u'') = (''150.00'', None)
     \<and> retries (snd (FetchPrice NewPriceFetcher (succeeds_with ''150.00'') ''u'')) = 0"
    by (simp add: succeeds_with_def)
  from m 1 2 show ?thesis by simp
qed

text \<open>
  Claim C9. With \<^verbatim>\<open>MaxRetries\<close> at least 1, \<^verbatim>\<open>FetchPrice\<close> never returns
  \<^verbatim>\<open>ErrElementNotFound\<close>: an error it returns wraps \<^verbatim>\<open>ErrPriceFetchFailed\<close> and comes with
  the empty string; a price it returns with no error is the (possibly empty) text a
  successful attempt read; when some attempt succeeds whatever it finds in \<^verbatim>\<open>price\<close> the
  call returns no error, and when every attempt fails it returns the wrapped
  \<^verbatim>\<open>ErrPriceFetchFailed\<close>.
\<close>

theorem FetchPrice_never_ErrElementNotFound:
  "1 \<le> MaxRetries pf \<Longrightarrow>
     snd (fst (FetchPrice pf Run url)) \<noteq> Some ErrElementNotFound
   \<and> (\<forall>e. snd (fst (FetchPrice pf Run url)) = Some e \<longrightarrow>
         \<not> errors_Is e ErrElementNotFound \<and> errors_Is e ErrPriceFetchFailed
         \<and> fst (fst (FetchPrice pf Run url)) = '''')
   \<and> (\<forall>p. fst (FetchPrice pf Run url) = (p, None) \<longrightarrow>
         (\<exists>n q. 0 \<le> n \<and> n < MaxRetries pf \<and> Run url n q = (p, None)))
   \<and> ((\<exists>n. 0 \<le> n \<and> n < MaxRetries pf \<and> (\<forall>q. snd (Run url n q) = None))
        \<longrightarrow> snd (fst (FetchPrice pf Run url)) = None)
   \<and> ((\<forall>n q. 0 \<le> n \<and> n < MaxRetries pf \<longrightarrow> snd (Run url n q) \<noteq> None)
        \<longrightarrow> (\<exists>e. fst (FetchPrice pf Run url) = ('''', Some (WrapV ErrPriceFetchFailed e))))"
proof -
  assume m: "1 \<le> MaxRetries pf"
  then have lt: "0 < MaxRetries pf" by simp
  obtain p r where pr: "fst (FetchPrice pf Run url) = (p, r)"
    by (cases "fst (FetchPrice pf Run url)")
  from loop_result [where pf = pf and attempt = 0 and R = "Run url" and price = "''''"
      and err = None and tr = "[EvLogFetching url]", OF refl lt]
  have res: "case r of
      None \<Rightarrow> (\<exists>n q. 0 \<le> n \<and> n < MaxRetries pf \<and> Run url n q = (p, None))
    | Some e \<Rightarrow> p = '''' \<and>
        (\<exists>e' q. e = WrapV ErrPriceFetchFailed e' \<and> snd (Run url (MaxRetries pf - 1) q) = Some e') \<and>
        (\<forall>n. 0 \<le> n \<and> n < MaxRetries pf \<longrightarrow> (\<exists>q. snd (Run url n q) \<noteq> None))"
    using pr by (cases r) (auto simp: FetchPrice_def)
  show ?thesis
  proof (cases r)
    case None
    from res None obtain n q where nq: "0 \<le> n" "n < MaxRetries pf" "Run url n q = (p, None)"
      by auto
    then have "snd (Run url n q) = None" by simp
    with nq have "\<not> (\<forall>n q. 0 \<le> n \<and> n < MaxRetries pf \<longrightarrow> snd (Run url n q) \<noteq> None)"
      by blast
    moreover have "\<exists>n q. 0 \<le> n \<and> n < MaxRetries pf \<and> Run url n q = (p, None)"
      using nq by blast
    ultimately show ?thesis unfolding pr None by simp
  next
    case (Some e)
    with res show ?thesis by (auto simp: pr)
  qed
qed

theorem FetchPrice_never_ErrElementNotFound_witness:
  "1 \<le> MaxRetries NewPriceFetcher
   \<and> fst (FetchPrice NewPriceFetcher (succeeds_with '''') ''u'') = ('''', None)
   \<and> snd (fst (FetchPrice NewPriceFetcher always_times_out ''u'')) \<noteq> Some ErrElementNotFound
   \<and> snd (fst (FetchPrice NewPriceFetcher always_times_out ''u''))
       = Some (WrapV ErrPriceFetchFailed DeadlineExceeded)"
proof -
  have m: "1 \<le> MaxRetries NewPriceFetcher" by (simp add: NewPriceFetcher_def)
  have ok: "\<exists>n. 0 \<le> n \<and> n < MaxRetries NewPriceFetcher
      \<and> (\<forall>q. snd (succeeds_with '''' ''u'' n q) = None)"
    by (rule exI [of _ 0]) (simp add: NewPriceFetcher_def succeeds_with_def)
  note T1 = FetchPrice_never_ErrElementNotFound [OF m, of "succeeds_with ''''" "''u''"]
  note T2 = FetchPrice_never_ErrElementNotFound [OF m, of always_times_out "''u''"]
  from T1 ok have n: "snd (fst (FetchPrice NewPriceFetcher (succeeds_with '''') ''u'')) = None"
    by blast
  obtain p where p: "fst (FetchPrice NewPriceFetcher (succeeds_with '''') ''u'') = (p, None)"
    using n by (cases "fst (FetchPrice NewPriceFetcher (succeeds_with '''') ''u'')") auto
  with T1 have "\<exists>n q. succeeds_with '''' ''u'' n q = (p, None)" by blast
  then have "p = ''''" by (simp add: succeeds_with_def)
  with p have 1: "fst (FetchPrice NewPriceFetcher (succeeds_with '''') ''u'') = ('''', None)"
    by simp
  from T2 have 2: "snd (fst (FetchPrice NewPriceFetcher always_times_out ''u''))
      \<noteq> Some ErrElementNotFound" by blast
  have 3: "snd (fst (FetchPrice NewPriceFetcher always_times_out ''u''))
       = Some (WrapV ErrPriceFetchFailed DeadlineExceeded)"
    by (simp add: FetchPrice_times_out_eval)
  from m 1 2 3 show ?thesis by simp
qed

section \<open>The fetch cycle and the sweep\<close>

subsection \<open>fetchAllPrices\<close>

lemma fetchAllPrices_loop_world:
  "snd (snd (fetchAllPrices_loop ps prices c w)) =
     w\<lparr>logged := logged w @ concat (map (\<lambda>x. case Error (snd x) of
          Some e \<Rightarrow> [LogErrFetchingPrice (fst x) e] | None \<Rightarrow> []) ps)\<rparr>"
  by (induction ps prices c w rule: fetchAllPrices_loop.induct)
     (auto simp: log_Printf_def split: option.splits)

lemma fetchAllPrices_loop_count:
  "fst (snd (fetchAllPrices_loop ps prices c w)) =
     c + length (filter (\<lambda>x. Error (snd x) = None) ps)"
  by (induction ps prices c w rule: fetchAllPrices_loop.induct)
     (auto split: option.splits)

lemma fetchAllPrices_frame:
  "lastProcessedDate (snd (fetchAllPrices outcome w)) = lastProcessedDate w"
  "lastAlertSentMap (snd (fetchAllPrices outcome w)) = lastAlertSentMap w"
  "db (snd (fetchAllPrices outcome w)) = db w"
  "ticks (snd (fetchAllPrices outcome w)) = ticks w"
  "outbox (snd (fetchAllPrices outcome w)) = outbox w"
  using fetchAllPrices_loop_world [of "fst outcome" "[]" 0 w]
  by (auto simp: fetchAllPrices_def log_Printf_def split: option.splits prod.splits)

lemma fetchAllPrices_fails_iff:
  "(\<exists>err. fst (fetchAllPrices outcome w) = Inl err) \<longleftrightarrow> zero_successes outcome"
proof (cases "snd outcome")
  case (Some e)
  then show ?thesis by (simp add: fetchAllPrices_def zero_successes_def)
next
  case None
  obtain prices c w1 where l: "fetchAllPrices_loop (fst outcome) [] 0 w = (prices, c, w1)"
    by (cases "fetchAllPrices_loop (fst outcome) [] 0 w")
  have c: "c = length (filter (\<lambda>x. Error (snd x) = None) (fst outcome))"
    using fetchAllPrices_loop_count [of "fst outcome" "[]" 0 w] l by simp
  have "c = 0 \<longleftrightarrow> list_all (\<lambda>x. Error (snd x) \<noteq> None) (fst outcome)"
    unfolding c by (simp add: list_all_iff filter_empty_conv)
  then show ?thesis using None l by (simp add: fetchAllPrices_def zero_successes_def)
qed

subsection \<open>Steps of the sweep\<close>

lemma progress_refl: "progress clk w w"
  by (simp add: progress_def)

lemma progress_trans:
  assumes "progress clk w1 w2" "progress clk w2 w3"
  shows "progress clk w1 w3"
proof -
  from assms obtain n1 n2 where
    l: "logged w2 = logged w1 @ n1" "LogStartingDailyReport \<notin> set n1" "LogCheckingRealtime \<notin> set n1"
       "logged w3 = logged w2 @ n2" "LogStartingDailyReport \<notin> set n2" "LogCheckingRealtime \<notin> set n2"
    unfolding progress_def by blast
  then have lg: "\<exists>new. logged w3 = logged w1 @ new
            \<and> LogStartingDailyReport \<notin> set new \<and> LogCheckingRealtime \<notin> set new"
    by (intro exI [of _ "n1 @ n2"]) simp
  have t: "ticks w1 \<le> ticks w2" "ticks w2 \<le> ticks w3"
    using assms by (simp_all add: progress_def)
  have m: "lastAlertSentMap w1 s = Some t \<or> (\<exists>n. ticks w1 \<le> n \<and> n < ticks w3 \<and> t = clk n)"
    if "lastAlertSentMap w3 s = Some t" for s t
  proof -
    from that assms(2) have "lastAlertSentMap w2 s = Some t
        \<or> (\<exists>n. ticks w2 \<le> n \<and> n < ticks w3 \<and> t = clk n)"
      by (simp add: progress_def)
    then show ?thesis
    proof
      assume "lastAlertSentMap w2 s = Some t"
      with assms(1) have "lastAlertSentMap w1 s = Some t
          \<or> (\<exists>n. ticks w1 \<le> n \<and> n < ticks w2 \<and> t = clk n)"
        by (simp add: progress_def)
      then show ?thesis using t by (metis less_le_trans)
    next
      assume "\<exists>n. ticks w2 \<le> n \<and> n < ticks w3 \<and> t = clk n"
      then show ?thesis using t by (metis le_trans)
    qed
  qed
  have k: "lastAlertSentMap w3 s \<noteq> None" if "lastAlertSentMap w1 s \<noteq> None" for s
    using that assms by (simp add: progress_def)
  show ?thesis
    unfolding progress_def using assms lg t m k
    by (simp add: progress_def)
qed

lemma progress_log: "l \<noteq> LogStartingDailyReport \<Longrightarrow> l \<noteq> LogCheckingRealtime \<Longrightarrow>
    progress clk w (log_Printf l w)"
  by (auto simp: progress_def log_Printf_def)

lemma progress_tick: "progress clk w (snd (time_Now clk w))"
  by (simp add: progress_def time_Now_def)

lemma progress_canSendAlert: "progress clk w (snd (canSendAlert clk w s))"
  by (simp add: canSendAlert_def progress_refl progress_tick [simplified time_Now_def, simplified]
      time_Now_def split: option.splits)

lemma progress_markAlertSent: "progress clk w (markAlertSent clk w s)"
  by (auto simp: progress_def markAlertSent_def time_Now_def)

lemma progress_SavePrice: "progress clk w (snd (SavePrice clk w s p False))"
  by (auto simp: progress_def SavePrice_def time_Now_def log_Printf_def closing_docs_def Let_def
      split: option.splits)

lemma progress_checkPriceChange: "progress clk w (snd (checkPriceChange parse clk w s p))"
proof -
  have 1: "progress clk w (snd (SavePrice clk (snd (time_Now clk w)) s p False))"
    by (rule progress_trans [OF progress_tick progress_SavePrice])
  have 2: "progress clk w (log_Printf (LogErrSaving s e)
      (snd (SavePrice clk (snd (time_Now clk w)) s p False)))" for e
    by (rule progress_trans [OF 1 progress_log]) simp_all
  show ?thesis
    using 1 2
    by (auto simp: checkPriceChange_def Let_def progress_refl progress_log
        split: sum.splits prod.splits option.splits)
qed

lemma GetLatestClosingPrice_closing_docs:
  "GetLatestClosingPrice parse d symbol =
     (case failure d of
        Some err \<Rightarrow> Inl (WrapV ErrMongoQueryFailed err)
      | None \<Rightarrow>
          (case latest_doc (filter (\<lambda>x. doc_Symbol x = symbol) (closing_docs d)) of
             None \<Rightarrow> Inl (WrapS ErrNoClosingPriceFound symbol)
           | Some result \<Rightarrow>
               (case parse (doc_Price result) of
                  Inl err \<Rightarrow> Inl (WrapV ErrInvalidPriceFormat err)
                | Inr price \<Rightarrow> Inr price)))"
proof -
  have h: "filter (\<lambda>x. doc_Symbol x = symbol \<and> IsClosing x) (stocks d)
      = filter (\<lambda>x. doc_Symbol x = symbol) (closing_docs d)"
    by (simp add: closing_docs_def conj_commute)
  show ?thesis unfolding GetLatestClosingPrice_def h by (rule refl)
qed

lemma significant_change_progress:
  "progress clk w w' \<Longrightarrow>
     significant_change parse (db w') s p = significant_change parse (db w) s p"
proof -
  assume "progress clk w w'"
  then have c: "closing_docs (db w') = closing_docs (db w)" "failure (db w') = failure (db w)"
    by (simp_all add: progress_def)
  have g: "GetLatestClosingPrice parse (db w') s = GetLatestClosingPrice parse (db w) s"
    unfolding GetLatestClosingPrice_closing_docs c by (rule refl)
  show ?thesis unfolding significant_change_def g by (rule refl)
qed

lemma checkPriceChange_Some_iff:
  "(fst (checkPriceChange parse clk w s p) \<noteq> None) = significant_change parse (db w) s p"
  by (simp add: checkPriceChange_def significant_change_def Let_def
      split: sum.splits prod.splits)

lemma checkPriceChange_Symbol:
  "fst (checkPriceChange parse clk w s p) = Some a \<Longrightarrow> alert_Symbol a = s"
  by (auto simp: checkPriceChange_def Let_def split: sum.splits prod.splits if_splits)

lemma checkPriceChange_map:
  "lastAlertSentMap (snd (checkPriceChange parse clk w s p)) = lastAlertSentMap w"
  by (simp add: checkPriceChange_def Let_def SavePrice_def time_Now_def log_Printf_def
      split: sum.splits prod.splits option.splits)

lemma canSendAlert_map:
  "lastAlertSentMap (snd (canSendAlert clk w s)) = lastAlertSentMap w"
  by (simp add: canSendAlert_def time_Now_def split: option.splits)

lemma sweep_loop_Cons:
  "sweep_loop parse clk ((s, p) # rest) acc w =
     sweep_loop parse clk rest (fst (sweep_step parse clk s p acc w))
       (snd (sweep_step parse clk s p acc w))"
  by (simp add: sweep_step_def split: prod.splits bool.splits option.splits)

lemma progress_sweep_step: "progress clk w (snd (sweep_step parse clk s p acc w))"
proof -
  let ?w1 = "snd (canSendAlert clk w s)"
  let ?w2 = "snd (checkPriceChange parse clk ?w1 s p)"
  have 1: "progress clk w ?w1" by (rule progress_canSendAlert)
  have 2: "progress clk w ?w2" by (rule progress_trans [OF 1 progress_checkPriceChange])
  have 3: "progress clk w (markAlertSent clk ?w2 s)"
    by (rule progress_trans [OF 2 progress_markAlertSent])
  have 4: "progress clk w (log_Printf (LogSignificantChange s x) (markAlertSent clk ?w2 s))" for x
    by (rule progress_trans [OF 3 progress_log]) simp_all
  show ?thesis
  proof (cases "canSendAlert clk w s")
    case c: (Pair b w1)
    show ?thesis
    proof (cases b)
      case False
      with c 1 show ?thesis by (simp add: sweep_step_def)
    next
      case True
      show ?thesis
      proof (cases "checkPriceChange parse clk w1 s p")
        case k: (Pair r w2)
        with c True 2 4 show ?thesis
          by (cases r) (auto simp: sweep_step_def)
      qed
    qed
  qed
qed

lemma sweep_step_skip:
  "\<not> (fst (canSendAlert clk w s) \<and> significant_change parse (db w) s p) \<Longrightarrow>
     fst (sweep_step parse clk s p acc w) = acc
     \<and> lastAlertSentMap (snd (sweep_step parse clk s p acc w)) = lastAlertSentMap w"
proof -
  assume a: "\<not> (fst (canSendAlert clk w s) \<and> significant_change parse (db w) s p)"
  obtain b w1 where c: "canSendAlert clk w s = (b, w1)" by (cases "canSendAlert clk w s")
  obtain r w2 where k: "checkPriceChange parse clk w1 s p = (r, w2)"
    by (cases "checkPriceChange parse clk w1 s p")
  have m1: "lastAlertSentMap w1 = lastAlertSentMap w" using canSendAlert_map [of clk w s] c by simp
  have m2: "lastAlertSentMap w2 = lastAlertSentMap w1"
    using checkPriceChange_map [of parse clk w1 s p] k by simp
  have d: "significant_change parse (db w1) s p = significant_change parse (db w) s p"
    using significant_change_progress [OF progress_canSendAlert, of parse clk w s s p] c by simp
  have r: "(r \<noteq> None) = significant_change parse (db w) s p"
    using checkPriceChange_Some_iff [of parse clk w1 s p] k d by simp
  show ?thesis
  proof (cases b)
    case False
    with c m1 show ?thesis by (simp add: sweep_step_def)
  next
    case True
    with a c have "\<not> significant_change parse (db w) s p" by simp
    with r have "r = None" by simp
    with True c k m1 m2 show ?thesis by (simp add: sweep_step_def)
  qed
qed

lemma sweep_step_alert:
  "fst (canSendAlert clk w s) \<Longrightarrow> significant_change parse (db w) s p \<Longrightarrow>
     \<exists>a. fst (sweep_step parse clk s p acc w) = acc @ [a] \<and> alert_Symbol a = s
        \<and> marked_during clk w (snd (sweep_step parse clk s p acc w)) s"
proof -
  assume g: "fst (canSendAlert clk w s)" and q: "significant_change parse (db w) s p"
  obtain b w1 where c: "canSendAlert clk w s = (b, w1)" by (cases "canSendAlert clk w s")
  obtain r w2 where k: "checkPriceChange parse clk w1 s p = (r, w2)"
    by (cases "checkPriceChange parse clk w1 s p")
  have b: "b" using g c by simp
  have d: "significant_change parse (db w1) s p = significant_change parse (db w) s p"
    using significant_change_progress [OF progress_canSendAlert, of parse clk w s s p] c by simp
  have "r \<noteq> None" using checkPriceChange_Some_iff [of parse clk w1 s p] k d q by simp
  then obtain a where r: "r = Some a" by auto
  have sym: "alert_Symbol a = s" using checkPriceChange_Symbol [of parse clk w1 s p a] k r by simp
  have t1: "ticks w \<le> ticks w1" using progress_canSendAlert [of clk w s] c by (simp add: progress_def)
  have t2: "ticks w1 \<le> ticks w2"
    using progress_checkPriceChange [of clk w1 parse s p] k by (simp add: progress_def)
  have e: "sweep_step parse clk s p acc w =
      (acc @ [a], log_Printf (LogSignificantChange s (PercentChange a)) (markAlertSent clk w2 s))"
    using c b k r by (simp add: sweep_step_def)
  have "marked_during clk w
      (log_Printf (LogSignificantChange s (PercentChange a)) (markAlertSent clk w2 s)) s"
    unfolding marked_during_def using t1 t2
    by (intro exI [of _ "ticks w2"]) (simp add: markAlertSent_def time_Now_def log_Printf_def)
  with e sym show ?thesis by simp
qed

lemma sweep_step_other:
  "s' \<noteq> s \<Longrightarrow>
     lastAlertSentMap (snd (sweep_step parse clk s p acc w)) s' = lastAlertSentMap w s'"
proof -
  assume n: "s' \<noteq> s"
  obtain b w1 where c: "canSendAlert clk w s = (b, w1)" by (cases "canSendAlert clk w s")
  obtain r w2 where k: "checkPriceChange parse clk w1 s p = (r, w2)"
    by (cases "checkPriceChange parse clk w1 s p")
  have m1: "lastAlertSentMap w1 = lastAlertSentMap w" using canSendAlert_map [of clk w s] c by simp
  have m2: "lastAlertSentMap w2 = lastAlertSentMap w1"
    using checkPriceChange_map [of parse clk w1 s p] k by simp
  show ?thesis
    using c k m1 m2 n
    by (cases b; cases r)
       (simp_all add: sweep_step_def markAlertSent_def time_Now_def log_Printf_def)
qed

lemma marked_during_progress:
  "marked_during clk w w1 s \<Longrightarrow> progress clk w1 w2 \<Longrightarrow> marked_during clk w w2 s"
proof -
  assume m: "marked_during clk w w1 s" and p: "progress clk w1 w2"
  from m obtain n where n: "ticks w \<le> n" "n < ticks w1" "lastAlertSentMap w1 s = Some (clk n)"
    unfolding marked_during_def by blast
  from p n(3) obtain t where t: "lastAlertSentMap w2 s = Some t"
    unfolding progress_def by fastforce
  with p have "lastAlertSentMap w1 s = Some t \<or> (\<exists>k. ticks w1 \<le> k \<and> k < ticks w2 \<and> t = clk k)"
    unfolding progress_def by blast
  moreover have "ticks w1 \<le> ticks w2" using p by (simp add: progress_def)
  ultimately show ?thesis
    unfolding marked_during_def using n t
    by (metis less_le_trans le_trans less_imp_le option.inject)
qed

lemma marked_during_earlier:
  "marked_during clk w1 w2 s \<Longrightarrow> ticks w \<le> ticks w1 \<Longrightarrow> marked_during clk w w2 s"
  unfolding marked_during_def by (metis le_trans)

subsection \<open>The loop of the sweep\<close>

lemma progress_sweep_loop: "progress clk w (snd (sweep_loop parse clk ps acc w))"
proof (induction ps arbitrary: acc w)
  case Nil
  show ?case by (simp add: progress_refl)
next
  case (Cons x ps)
  obtain s p where x: "x = (s, p)" by (cases x)
  show ?case
    unfolding x sweep_loop_Cons
    by (rule progress_trans [OF progress_sweep_step Cons.IH])
qed

lemma sweep_loop_sound:
  "\<exists>new. fst (sweep_loop parse clk ps acc w) = acc @ new
     \<and> (\<forall>a \<in> set new. marked_during clk w (snd (sweep_loop parse clk ps acc w)) (alert_Symbol a)
           \<and> (\<exists>p. (alert_Symbol a, p) \<in> set ps
                 \<and> significant_change parse (db w) (alert_Symbol a) p))"
proof (induction ps arbitrary: acc w)
  case Nil
  show ?case by simp
next
  case (Cons x ps)
  obtain s p where x: "x = (s, p)" by (cases x)
  let ?acc1 = "fst (sweep_step parse clk s p acc w)"
  let ?w1 = "snd (sweep_step parse clk s p acc w)"
  let ?w' = "snd (sweep_loop parse clk ps ?acc1 ?w1)"
  have p1: "progress clk w ?w1" by (rule progress_sweep_step)
  have p2: "progress clk ?w1 ?w'" by (rule progress_sweep_loop)
  have t: "ticks w \<le> ticks ?w1" using p1 by (simp add: progress_def)
  from Cons.IH [of ?acc1 ?w1] obtain new where
    new: "fst (sweep_loop parse clk ps ?acc1 ?w1) = ?acc1 @ new"
      "\<forall>a \<in> set new. marked_during clk ?w1 ?w' (alert_Symbol a)
           \<and> (\<exists>p. (alert_Symbol a, p) \<in> set ps
                 \<and> significant_change parse (db ?w1) (alert_Symbol a) p)"
    by blast
  have rest: "marked_during clk w ?w' (alert_Symbol a)
           \<and> (\<exists>q. (alert_Symbol a, q) \<in> set ((s, p) # ps)
                 \<and> significant_change parse (db w) (alert_Symbol a) q)"
    if "a \<in> set new" for a
  proof -
    from new(2) that have m: "marked_during clk ?w1 ?w' (alert_Symbol a)"
      and "\<exists>p. (alert_Symbol a, p) \<in> set ps
                 \<and> significant_change parse (db ?w1) (alert_Symbol a) p"
      by blast+
    then obtain q where q: "(alert_Symbol a, q) \<in> set ps"
      "significant_change parse (db ?w1) (alert_Symbol a) q" by blast
    from q(2) have "significant_change parse (db w) (alert_Symbol a) q"
      using significant_change_progress [OF p1] by simp
    with q(1) m t show ?thesis
      by (auto intro: marked_during_earlier)
  qed
  show ?case
  proof (cases "fst (canSendAlert clk w s) \<and> significant_change parse (db w) s p")
    case True
    from sweep_step_alert [of clk w s parse p acc] True obtain a where
      a: "?acc1 = acc @ [a]" "alert_Symbol a = s" "marked_during clk w ?w1 s"
      by blast
    have ma: "marked_during clk w ?w' (alert_Symbol a)"
      using marked_during_progress [OF a(3) p2] a(2) by simp
    have "fst (sweep_loop parse clk (x # ps) acc w) = acc @ (a # new)"
      unfolding x sweep_loop_Cons using new(1) a(1) by simp
    moreover have "\<forall>b \<in> set (a # new).
        marked_during clk w (snd (sweep_loop parse clk (x # ps) acc w)) (alert_Symbol b)
           \<and> (\<exists>q. (alert_Symbol b, q) \<in> set (x # ps)
                 \<and> significant_change parse (db w) (alert_Symbol b) q)"
      unfolding x sweep_loop_Cons using rest ma a(2) True by auto
    ultimately show ?thesis by blast
  next
    case False
    from sweep_step_skip [OF False, of acc] have a: "?acc1 = acc" by simp
    have "fst (sweep_loop parse clk (x # ps) acc w) = acc @ new"
      unfolding x sweep_loop_Cons using new(1) a by simp
    moreover have "\<forall>b \<in> set new.
        marked_during clk w (snd (sweep_loop parse clk (x # ps) acc w)) (alert_Symbol b)
           \<and> (\<exists>q. (alert_Symbol b, q) \<in> set (x # ps)
                 \<and> significant_change parse (db w) (alert_Symbol b) q)"
      unfolding x sweep_loop_Cons using rest by auto
    ultimately show ?thesis by blast
  qed
qed

lemma gate_open_from_fst: "gate_open_from clk w s \<Longrightarrow> fst (canSendAlert clk w s)"
  by (auto simp: gate_open_from_def canSendAlert_fst split: option.splits)

lemma gate_shut_from_fst: "gate_shut_from clk w s \<Longrightarrow> \<not> fst (canSendAlert clk w s)"
  by (auto simp: gate_shut_from_def canSendAlert_fst split: option.splits)

lemma gate_open_from_later:
  "gate_open_from clk w s \<Longrightarrow> lastAlertSentMap w1 s = lastAlertSentMap w s \<Longrightarrow>
     ticks w \<le> ticks w1 \<Longrightarrow> gate_open_from clk w1 s"
proof (cases "lastAlertSentMap w s")
  case None
  assume "lastAlertSentMap w1 s = lastAlertSentMap w s"
  with None show ?thesis by (simp add: gate_open_from_def)
next
  case (Some x)
  assume g: "gate_open_from clk w s" and m: "lastAlertSentMap w1 s = lastAlertSentMap w s"
    and t: "ticks w \<le> ticks w1"
  from g Some have a: "\<forall>n. ticks w \<le> n \<longrightarrow> Format_date x \<noteq> Format_date (clk n)"
    by (simp add: gate_open_from_def)
  have "Format_date x \<noteq> Format_date (clk n)" if "ticks w1 \<le> n" for n
    using a t that by (meson le_trans)
  with Some m show ?thesis by (simp add: gate_open_from_def)
qed

lemma gate_shut_from_later:
  "gate_shut_from clk w s \<Longrightarrow> lastAlertSentMap w1 s = lastAlertSentMap w s \<Longrightarrow>
     ticks w \<le> ticks w1 \<Longrightarrow> gate_shut_from clk w1 s"
proof -
  assume g: "gate_shut_from clk w s" and m: "lastAlertSentMap w1 s = lastAlertSentMap w s"
    and t: "ticks w \<le> ticks w1"
  from g obtain x where x: "lastAlertSentMap w s = Some x"
    "\<forall>n. ticks w \<le> n \<longrightarrow> Format_date x = Format_date (clk n)"
    by (auto simp: gate_shut_from_def split: option.splits)
  have "Format_date x = Format_date (clk n)" if "ticks w1 \<le> n" for n
    using x(2) t that by (meson le_trans)
  with x(1) m show ?thesis by (simp add: gate_shut_from_def)
qed

lemma sweep_loop_complete:
  "distinct (map fst ps) \<Longrightarrow> (s, p) \<in> set ps \<Longrightarrow> significant_change parse (db w) s p \<Longrightarrow>
   gate_open_from clk w s \<Longrightarrow>
     \<exists>a \<in> set (drop (length acc) (fst (sweep_loop parse clk ps acc w))). alert_Symbol a = s"
proof (induction ps arbitrary: acc w)
  case Nil
  then show ?case by simp
next
  case (Cons x ps)
  obtain s0 p0 where x: "x = (s0, p0)" by (cases x)
  let ?acc1 = "fst (sweep_step parse clk s0 p0 acc w)"
  let ?w1 = "snd (sweep_step parse clk s0 p0 acc w)"
  have p1: "progress clk w ?w1" by (rule progress_sweep_step)
  from sweep_loop_sound [of parse clk ps ?acc1 ?w1] obtain new where
    new: "fst (sweep_loop parse clk ps ?acc1 ?w1) = ?acc1 @ new" by blast
  show ?case
  proof (cases "s0 = s")
    case True
    with Cons.prems x have "p0 = p" by (auto simp: image_iff)
    with True sweep_step_alert [OF gate_open_from_fst [OF Cons.prems(4)] Cons.prems(3), of acc]
    obtain a where a: "?acc1 = acc @ [a]" "alert_Symbol a = s" by blast
    have "fst (sweep_loop parse clk (x # ps) acc w) = acc @ (a # new)"
      unfolding x sweep_loop_Cons using new a(1) by simp
    with a(2) show ?thesis by simp
  next
    case False
    then have in_ps: "(s, p) \<in> set ps" using Cons.prems(2) x by auto
    have d: "distinct (map fst ps)" using Cons.prems(1) by simp
    have q: "significant_change parse (db ?w1) s p"
      using significant_change_progress [OF p1] Cons.prems(3) by simp
    have m: "lastAlertSentMap ?w1 s = lastAlertSentMap w s"
      using sweep_step_other False by metis
    have t: "ticks w \<le> ticks ?w1" using p1 by (simp add: progress_def)
    have g: "gate_open_from clk ?w1 s" by (rule gate_open_from_later [OF Cons.prems(4) m t])
    from Cons.IH [OF d in_ps q g, of ?acc1] obtain a where
      a: "a \<in> set (drop (length ?acc1) (fst (sweep_loop parse clk ps ?acc1 ?w1)))"
         "alert_Symbol a = s" by blast
    from a(1) new have "a \<in> set new" by simp
    have "?acc1 = acc \<or> (\<exists>b. ?acc1 = acc @ [b])"
      using sweep_step_skip [of clk w s0 parse p0 acc] sweep_step_alert [of clk w s0 parse p0 acc]
      by blast
    then have "a \<in> set (drop (length acc) (?acc1 @ new))"
      using \<open>a \<in> set new\<close> by auto
    then show ?thesis
      unfolding x sweep_loop_Cons using new a(2) by auto
  qed
qed

lemma sweep_loop_shut:
  "gate_shut_from clk w s \<Longrightarrow>
     \<forall>a \<in> set (drop (length acc) (fst (sweep_loop parse clk ps acc w))). alert_Symbol a \<noteq> s"
proof (induction ps arbitrary: acc w)
  case Nil
  then show ?case by simp
next
  case (Cons x ps)
  obtain s0 p0 where x: "x = (s0, p0)" by (cases x)
  let ?acc1 = "fst (sweep_step parse clk s0 p0 acc w)"
  let ?w1 = "snd (sweep_step parse clk s0 p0 acc w)"
  have p1: "progress clk w ?w1" by (rule progress_sweep_step)
  have t: "ticks w \<le> ticks ?w1" using p1 by (simp add: progress_def)
  from sweep_loop_sound [of parse clk ps ?acc1 ?w1] obtain new where
    new: "fst (sweep_loop parse clk ps ?acc1 ?w1) = ?acc1 @ new" by blast
  have m: "lastAlertSentMap ?w1 s = lastAlertSentMap w s"
    and a1: "?acc1 = acc \<or> (\<exists>b. ?acc1 = acc @ [b] \<and> alert_Symbol b \<noteq> s)"
  proof -
    show "lastAlertSentMap ?w1 s = lastAlertSentMap w s"
    proof (cases "s0 = s")
      case True
      with sweep_step_skip [of clk w s0 parse p0 acc] gate_shut_from_fst [OF Cons.prems]
      show ?thesis by simp
    next
      case False
      then show ?thesis using sweep_step_other by metis
    qed
    show "?acc1 = acc \<or> (\<exists>b. ?acc1 = acc @ [b] \<and> alert_Symbol b \<noteq> s)"
    proof (cases "s0 = s")
      case True
      with sweep_step_skip [of clk w s0 parse p0 acc] gate_shut_from_fst [OF Cons.prems]
      show ?thesis by simp
    next
      case False
      then show ?thesis
        using sweep_step_skip [of clk w s0 parse p0 acc]
          sweep_step_alert [of clk w s0 parse p0 acc]
        by blast
    qed
  qed
  have g: "gate_shut_from clk ?w1 s" by (rule gate_shut_from_later [OF Cons.prems m t])
  from Cons.IH [OF g, of ?acc1] new
  have n: "\<forall>a \<in> set new. alert_Symbol a \<noteq> s" by simp
  from a1 n have "\<forall>a \<in> set (drop (length acc) (?acc1 @ new)). alert_Symbol a \<noteq> s"
    by auto
  then show ?case unfolding x sweep_loop_Cons using new by simp
qed

subsection \<open>One tick\<close>

lemma checkAndProcess_blocks:
  "checkAndProcess env config w =
     (let now = tick_now env w;
          w2 = daily_transition env config now
                 (log_Printf (LogCheckingTime now) (snd (time_Now (clock env) w)))
      in if isMarketOpen now \<and> Minute now mod realtimeCheckMinutes = 0
         then checkRealtimePriceChanges env (log_Printf LogCheckingRealtime w2)
         else w2)"
  by (simp add: checkAndProcess_def daily_transition_def tick_now_def time_Now_def Let_def)

lemma log_grows_refl: "log_grows w w"
  by (simp add: log_grows_def)

lemma log_grows_trans: "log_grows w1 w2 \<Longrightarrow> log_grows w2 w3 \<Longrightarrow> log_grows w1 w3"
proof -
  assume "log_grows w1 w2" "log_grows w2 w3"
  then obtain n1 n2 where
    "logged w2 = logged w1 @ n1" "LogStartingDailyReport \<notin> set n1" "LogCheckingRealtime \<notin> set n1"
    "logged w3 = logged w2 @ n2" "LogStartingDailyReport \<notin> set n2" "LogCheckingRealtime \<notin> set n2"
    unfolding log_grows_def by blast
  then show ?thesis
    unfolding log_grows_def by (intro exI [of _ "n1 @ n2"]) simp
qed

lemma log_grows_Printf:
  "l \<noteq> LogStartingDailyReport \<Longrightarrow> l \<noteq> LogCheckingRealtime \<Longrightarrow> log_grows w (log_Printf l w)"
  by (simp add: log_grows_def log_Printf_def)

lemma log_grows_same: "logged w' = logged w \<Longrightarrow> log_grows w w'"
  by (simp add: log_grows_def)

lemma log_grows_progress: "progress clk w w' \<Longrightarrow> log_grows w w'"
  by (simp add: progress_def log_grows_def)

lemma log_grows_fetchAllPrices: "log_grows w (snd (fetchAllPrices outcome w))"
proof (cases "snd outcome")
  case (Some e)
  then show ?thesis by (simp add: fetchAllPrices_def log_grows_refl)
next
  case None
  obtain prices c w1 where l: "fetchAllPrices_loop (fst outcome) [] 0 w = (prices, c, w1)"
    by (cases "fetchAllPrices_loop (fst outcome) [] 0 w")
  have "w1 = w\<lparr>logged := logged w @ concat (map (\<lambda>x. case Error (snd x) of
          Some e \<Rightarrow> [LogErrFetchingPrice (fst x) e] | None \<Rightarrow> []) (fst outcome))\<rparr>"
    using fetchAllPrices_loop_world [of "fst outcome" "[]" 0 w] l by simp
  then have g: "log_grows w w1"
    unfolding log_grows_def
    by (intro exI [of _ "concat (map (\<lambda>x. case Error (snd x) of
          Some e \<Rightarrow> [LogErrFetchingPrice (fst x) e] | None \<Rightarrow> []) (fst outcome))"])
       (auto split: option.splits)
  have g2: "log_grows w (log_Printf (LogFetchedCount c) w1)"
    by (rule log_grows_trans [OF g log_grows_Printf]) simp_all
  from None l g g2 show ?thesis by (simp add: fetchAllPrices_def)
qed

subsection \<open>sendDailyReport\<close>

lemma sendDailyReport_cases:
  "sendDailyReport env w =
     (let r = fetchAllPrices (dailyFetch env) (log_Printf LogFetchingForDailyReport w)
      in case fst r of
           Inl err \<Rightarrow> log_Printf (LogErrDailyFetch err) (snd r)
         | Inr prices \<Rightarrow>
             (case dailySend env of
                Some err \<Rightarrow> log_Printf (LogErrDailySend err)
                  (messenger_call (SendMessage prices) (snd r))
              | None \<Rightarrow> log_Printf LogDailySent (messenger_call (SendMessage prices) (snd r))))"
  by (auto simp: sendDailyReport_def Let_def split: prod.splits sum.splits option.splits)

lemma sendDailyReport_frame:
  "lastProcessedDate (sendDailyReport env w) = lastProcessedDate w"
  "lastAlertSentMap (sendDailyReport env w) = lastAlertSentMap w"
  "db (sendDailyReport env w) = db w"
  "ticks (sendDailyReport env w) = ticks w"
  by (simp_all add: sendDailyReport_cases Let_def fetchAllPrices_frame log_Printf_def
      messenger_call_def split: sum.splits option.splits)

lemma sendDailyReport_outbox:
  "outbox (sendDailyReport env w) =
     outbox w @
       (case fst (fetchAllPrices (dailyFetch env) (log_Printf LogFetchingForDailyReport w)) of
          Inl err \<Rightarrow> []
        | Inr prices \<Rightarrow> [SendMessage prices])"
  by (simp add: sendDailyReport_cases Let_def fetchAllPrices_frame log_Printf_def
      messenger_call_def split: sum.splits option.splits)

lemma sendDailyReport_zero_successes:
  "zero_successes (dailyFetch env) \<Longrightarrow> outbox (sendDailyReport env w) = outbox w"
proof -
  assume "zero_successes (dailyFetch env)"
  then obtain err where
    "fst (fetchAllPrices (dailyFetch env) (log_Printf LogFetchingForDailyReport w)) = Inl err"
    using fetchAllPrices_fails_iff by blast
  then show ?thesis by (simp add: sendDailyReport_outbox)
qed

lemma log_grows_field:
  "log_grows w (w\<lparr>outbox := x\<rparr>)"
  "log_grows w (w\<lparr>lastProcessedDate := d\<rparr>)"
  "log_grows w (w\<lparr>lastAlertSentMap := m\<rparr>)"
  "log_grows w (w\<lparr>ticks := n\<rparr>)"
  by (simp_all add: log_grows_def)

lemma log_grows_sendDailyReport: "log_grows w (sendDailyReport env w)"
proof -
  let ?w0 = "log_Printf LogFetchingForDailyReport w"
  let ?r = "fetchAllPrices (dailyFetch env) ?w0"
  have 0: "log_grows w ?w0" by (rule log_grows_Printf) simp_all
  have 1: "log_grows w (snd ?r)" by (rule log_grows_trans [OF 0 log_grows_fetchAllPrices])
  have 2: "log_grows w (messenger_call c (snd ?r))" for c
    unfolding messenger_call_def by (rule log_grows_trans [OF 1 log_grows_field(1)])
  have 3: "l \<noteq> LogStartingDailyReport \<Longrightarrow> l \<noteq> LogCheckingRealtime \<Longrightarrow>
      log_grows w (log_Printf l (messenger_call c (snd ?r)))" for c l
    by (rule log_grows_trans [OF 2 log_grows_Printf])
  have 4: "log_grows w (log_Printf (LogErrDailyFetch e) (snd ?r))" for e
    by (rule log_grows_trans [OF 1 log_grows_Printf]) simp_all
  show ?thesis
    unfolding sendDailyReport_cases Let_def
    by (cases "fst ?r"; cases "dailySend env") (simp_all add: 3 4)
qed

subsection \<open>The price map of a fetch cycle\<close>

lemma fetchAllPrices_loop_distinct:
  "distinct (map fst prices) \<Longrightarrow> distinct (map fst (fst (fetchAllPrices_loop ps prices c w)))"
  by (induction ps prices c w rule: fetchAllPrices_loop.induct)
     (auto simp: distinct_update split: option.splits)

lemma fetchAllPrices_distinct:
  "fst (fetchAllPrices outcome w) = Inr prices \<Longrightarrow> distinct (map fst prices)"
proof -
  assume a: "fst (fetchAllPrices outcome w) = Inr prices"
  obtain pr c w1 where l: "fetchAllPrices_loop (fst outcome) [] 0 w = (pr, c, w1)"
    by (cases "fetchAllPrices_loop (fst outcome) [] 0 w")
  have "distinct (map fst pr)"
    using fetchAllPrices_loop_distinct [of "[]" "fst outcome" 0 w] l by simp
  with a l show ?thesis
    by (auto simp: fetchAllPrices_def split: option.splits if_splits)
qed

subsection \<open>checkRealtimePriceChanges\<close>

lemma checkRealtimePriceChanges_cases:
  "checkRealtimePriceChanges env w =
     (let r = fetchAllPrices (realtimeFetch env) w
      in case fst r of
           Inl err \<Rightarrow> log_Printf (LogErrRealtimeFetch err) (snd r)
         | Inr prices \<Rightarrow>
             (let l = sweep_loop (ParseFloat env) (clock env) prices [] (snd r)
              in if fst l = [] then snd l
                 else (case realtimeSend env of
                         Some err \<Rightarrow> log_Printf (LogErrAlertsSend err)
                           (messenger_call (SendAlerts (fst l))
                              (log_Printf (LogSendingAlerts (length (fst l))) (snd l)))
                       | None \<Rightarrow> log_Printf LogAlertsSent
                           (messenger_call (SendAlerts (fst l))
                              (log_Printf (LogSendingAlerts (length (fst l))) (snd l))))))"
  by (auto simp: checkRealtimePriceChanges_def Let_def
      split: prod.splits sum.splits option.splits)

lemma sweep_batch_cases:
  "sweep_batch env w =
     (case fst (fetchAllPrices (realtimeFetch env) w) of
        Inl err \<Rightarrow> []
      | Inr prices \<Rightarrow>
          fst (sweep_loop (ParseFloat env) (clock env) prices []
                 (snd (fetchAllPrices (realtimeFetch env) w))))"
  by (simp add: sweep_batch_def split: prod.splits sum.splits)

lemma checkRealtimePriceChanges_outbox:
  "outbox (checkRealtimePriceChanges env w) =
     outbox w @ (if sweep_batch env w = [] then [] else [SendAlerts (sweep_batch env w)])"
proof -
  let ?r = "fetchAllPrices (realtimeFetch env) w"
  have o: "outbox (snd (sweep_loop (ParseFloat env) (clock env) prices [] (snd ?r))) = outbox w"
    for prices
    using progress_sweep_loop [of "clock env" "snd ?r" "ParseFloat env" prices "[]"]
    by (simp add: progress_def fetchAllPrices_frame)
  show ?thesis
    unfolding checkRealtimePriceChanges_cases sweep_batch_cases Let_def
    by (cases "fst ?r"; cases "realtimeSend env")
       (simp_all add: o fetchAllPrices_frame log_Printf_def messenger_call_def)
qed

lemma checkRealtimePriceChanges_map:
  "lastAlertSentMap (checkRealtimePriceChanges env w) =
     (case fst (fetchAllPrices (realtimeFetch env) w) of
        Inl err \<Rightarrow> lastAlertSentMap w
      | Inr prices \<Rightarrow>
          lastAlertSentMap (snd (sweep_loop (ParseFloat env) (clock env) prices []
                 (snd (fetchAllPrices (realtimeFetch env) w)))))"
  unfolding checkRealtimePriceChanges_cases Let_def
  by (cases "fst (fetchAllPrices (realtimeFetch env) w)"; cases "realtimeSend env")
     (simp_all add: fetchAllPrices_frame log_Printf_def messenger_call_def)

lemma checkRealtimePriceChanges_ticks:
  "ticks (checkRealtimePriceChanges env w) =
     (case fst (fetchAllPrices (realtimeFetch env) w) of
        Inl err \<Rightarrow> ticks w
      | Inr prices \<Rightarrow>
          ticks (snd (sweep_loop (ParseFloat env) (clock env) prices []
                 (snd (fetchAllPrices (realtimeFetch env) w)))))"
  unfolding checkRealtimePriceChanges_cases Let_def
  by (cases "fst (fetchAllPrices (realtimeFetch env) w)"; cases "realtimeSend env")
     (simp_all add: fetchAllPrices_frame log_Printf_def messenger_call_def)

lemma checkRealtimePriceChanges_date:
  "lastProcessedDate (checkRealtimePriceChanges env w) = lastProcessedDate w"
proof -
  let ?r = "fetchAllPrices (realtimeFetch env) w"
  have o: "lastProcessedDate (snd (sweep_loop (ParseFloat env) (clock env) prices [] (snd ?r)))
      = lastProcessedDate w" for prices
    using progress_sweep_loop [of "clock env" "snd ?r" "ParseFloat env" prices "[]"]
    by (simp add: progress_def fetchAllPrices_frame)
  show ?thesis
    unfolding checkRealtimePriceChanges_cases Let_def
    by (cases "fst ?r"; cases "realtimeSend env")
       (simp_all add: o fetchAllPrices_frame log_Printf_def messenger_call_def)
qed

lemma log_grows_checkRealtimePriceChanges: "log_grows w (checkRealtimePriceChanges env w)"
proof -
  let ?r = "fetchAllPrices (realtimeFetch env) w"
  have 1: "log_grows w (snd ?r)" by (rule log_grows_fetchAllPrices)
  have 2: "log_grows w (log_Printf (LogErrRealtimeFetch e) (snd ?r))" for e
    by (rule log_grows_trans [OF 1 log_grows_Printf]) simp_all
  have 3: "log_grows w (snd (sweep_loop (ParseFloat env) (clock env) prices [] (snd ?r)))"
    (is "log_grows w ?w2") for prices
    by (rule log_grows_trans [OF 1 log_grows_progress [OF progress_sweep_loop]])
  have 4: "log_grows w (log_Printf (LogSendingAlerts n)
      (snd (sweep_loop (ParseFloat env) (clock env) prices [] (snd ?r))))" for prices n
    by (rule log_grows_trans [OF 3 log_grows_Printf]) simp_all
  have 5: "log_grows w (messenger_call c (log_Printf (LogSendingAlerts n)
      (snd (sweep_loop (ParseFloat env) (clock env) prices [] (snd ?r)))))" for prices n c
    unfolding messenger_call_def by (rule log_grows_trans [OF 4 log_grows_field(1)])
  have 6: "l \<noteq> LogStartingDailyReport \<Longrightarrow> l \<noteq> LogCheckingRealtime \<Longrightarrow>
      log_grows w (log_Printf l (messenger_call c (log_Printf (LogSendingAlerts n)
      (snd (sweep_loop (ParseFloat env) (clock env) prices [] (snd ?r))))))" for prices n c l
    by (rule log_grows_trans [OF 5 log_grows_Printf])
  show ?thesis
    unfolding checkRealtimePriceChanges_cases Let_def
    by (cases "fst ?r"; cases "realtimeSend env") (simp_all add: 2 3 6)
qed

subsection \<open>The batch of a sweep\<close>


lemma sweep_batch_sound:
  "a \<in> set (sweep_batch env w) \<Longrightarrow>
     \<exists>prices p. fst (fetchAllPrices (realtimeFetch env) w) = Inr prices
       \<and> (alert_Symbol a, p) \<in> set prices
       \<and> significant_change (ParseFloat env) (db w) (alert_Symbol a) p"
proof -
  assume a: "a \<in> set (sweep_batch env w)"
  let ?r = "fetchAllPrices (realtimeFetch env) w"
  from a obtain prices where r: "fst ?r = Inr prices"
    by (cases "fst ?r") (simp_all add: sweep_batch_cases)
  let ?l = "sweep_loop (ParseFloat env) (clock env) prices [] (snd ?r)"
  from a r have "a \<in> set (fst ?l)" by (simp add: sweep_batch_cases)
  with sweep_loop_sound [of "ParseFloat env" "clock env" prices "[]" "snd ?r"]
  have "\<exists>p. (alert_Symbol a, p) \<in> set prices
      \<and> significant_change (ParseFloat env) (db (snd ?r)) (alert_Symbol a) p" by auto
  with r show ?thesis by (simp add: fetchAllPrices_frame)
qed

lemma sweep_batch_complete:
  "fst (fetchAllPrices (realtimeFetch env) w) = Inr prices \<Longrightarrow> (s, p) \<in> set prices \<Longrightarrow>
   significant_change (ParseFloat env) (db w) s p \<Longrightarrow> gate_open_from (clock env) w s \<Longrightarrow>
     \<exists>a \<in> set (sweep_batch env w). alert_Symbol a = s"
proof -
  let ?r = "fetchAllPrices (realtimeFetch env) w"
  assume r: "fst ?r = Inr prices" and i: "(s, p) \<in> set prices"
    and q: "significant_change (ParseFloat env) (db w) s p"
    and g: "gate_open_from (clock env) w s"
  have d: "distinct (map fst prices)" by (rule fetchAllPrices_distinct [OF r])
  have q': "significant_change (ParseFloat env) (db (snd ?r)) s p"
    using q by (simp add: fetchAllPrices_frame)
  have g': "gate_open_from (clock env) (snd ?r) s"
    using g by (simp add: gate_open_from_def fetchAllPrices_frame split: option.splits)
  from sweep_loop_complete [OF d i q' g', of "[]"] r show ?thesis
    by (simp add: sweep_batch_cases)
qed

lemma sweep_batch_shut:
  "gate_shut_from (clock env) w s \<Longrightarrow> \<forall>a \<in> set (sweep_batch env w). alert_Symbol a \<noteq> s"
proof -
  let ?r = "fetchAllPrices (realtimeFetch env) w"
  assume g: "gate_shut_from (clock env) w s"
  have g': "gate_shut_from (clock env) (snd ?r) s"
    using g by (simp add: gate_shut_from_def fetchAllPrices_frame split: option.splits)
  show ?thesis
  proof (cases "fst ?r")
    case (Inl e)
    then show ?thesis by (simp add: sweep_batch_cases)
  next
    case (Inr prices)
    from sweep_loop_shut [OF g', of "[]" "ParseFloat env" prices] Inr show ?thesis
      by (simp add: sweep_batch_cases)
  qed
qed



lemma checkRealtimePriceChanges_entries:
  "lastAlertSentMap (checkRealtimePriceChanges env w) s = Some t \<Longrightarrow>
     lastAlertSentMap w s = Some t
     \<or> (\<exists>n. ticks w \<le> n \<and> n < ticks (checkRealtimePriceChanges env w) \<and> t = clock env n)"
proof -
  let ?r = "fetchAllPrices (realtimeFetch env) w"
  assume a: "lastAlertSentMap (checkRealtimePriceChanges env w) s = Some t"
  show ?thesis
  proof (cases "fst ?r")
    case (Inl e)
    with a show ?thesis by (simp add: checkRealtimePriceChanges_map)
  next
    case (Inr prices)
    let ?l = "sweep_loop (ParseFloat env) (clock env) prices [] (snd ?r)"
    have "progress (clock env) (snd ?r) (snd ?l)" by (rule progress_sweep_loop)
    moreover from a Inr have "lastAlertSentMap (snd ?l) s = Some t"
      by (simp add: checkRealtimePriceChanges_map)
    ultimately have "lastAlertSentMap (snd ?r) s = Some t
        \<or> (\<exists>n. ticks (snd ?r) \<le> n \<and> n < ticks (snd ?l) \<and> t = clock env n)"
      unfolding progress_def by blast
    then show ?thesis
      by (simp add: checkRealtimePriceChanges_ticks Inr fetchAllPrices_frame)
  qed
qed


subsection \<open>The log of a tick\<close>

lemma daily_transition_log:
  "\<exists>new. logged (daily_transition env config now w1) = logged w1 @ new
     \<and> LogCheckingRealtime \<notin> set new
     \<and> (LogStartingDailyReport \<in> set new \<longleftrightarrow>
          Hour now = CheckHour config \<and> Minute now < checkInterval
          \<and> lastProcessedDate w1 \<noteq> Some (Format_date now))"
proof (cases "Hour now = CheckHour config \<and> Minute now < checkInterval
          \<and> lastProcessedDate w1 \<noteq> Some (Format_date now)")
  case False
  then have "daily_transition env config now w1 = w1" by (auto simp: daily_transition_def)
  with False show ?thesis by simp
next
  case True
  let ?w0 = "log_Printf LogStartingDailyReport w1"
  from log_grows_sendDailyReport [of ?w0 env] obtain new where
    new: "logged (sendDailyReport env ?w0) = logged ?w0 @ new"
      "LogCheckingRealtime \<notin> set new"
    unfolding log_grows_def by blast
  have "logged (daily_transition env config now w1) =
      logged w1 @ ([LogStartingDailyReport] @ new
         @ [LogDailyReportProcessed (Some (Format_date now)), LogAlertMapReset])"
    using True new(1)
    by (simp add: daily_transition_def Let_def resetAlertMap_def log_Printf_def)
  with new(2) True show ?thesis by (intro exI) auto
qed

lemma checkAndProcess_log:
  "\<exists>new. logged (checkAndProcess env config w) = logged w @ new
     \<and> (LogStartingDailyReport \<in> set new \<longleftrightarrow>
          Hour (tick_now env w) = CheckHour config \<and> Minute (tick_now env w) < checkInterval
          \<and> lastProcessedDate w \<noteq> Some (Format_date (tick_now env w)))
     \<and> (LogCheckingRealtime \<in> set new \<longleftrightarrow>
          isMarketOpen (tick_now env w)
          \<and> Minute (tick_now env w) mod realtimeCheckMinutes = 0)"
proof -
  let ?now = "tick_now env w"
  let ?w1 = "log_Printf (LogCheckingTime ?now) (snd (time_Now (clock env) w))"
  let ?w2 = "daily_transition env config ?now ?w1"
  have l1: "logged ?w1 = logged w @ [LogCheckingTime ?now]"
    and d1: "lastProcessedDate ?w1 = lastProcessedDate w"
    by (simp_all add: log_Printf_def time_Now_def)
  from daily_transition_log [of env config ?now ?w1] obtain n2 where
    n2: "logged ?w2 = logged ?w1 @ n2" "LogCheckingRealtime \<notin> set n2"
      "LogStartingDailyReport \<in> set n2 \<longleftrightarrow>
          Hour ?now = CheckHour config \<and> Minute ?now < checkInterval
          \<and> lastProcessedDate w \<noteq> Some (Format_date ?now)"
    unfolding d1 by blast
  show ?thesis
  proof (cases "isMarketOpen ?now \<and> Minute ?now mod realtimeCheckMinutes = 0")
    case False
    then have e: "checkAndProcess env config w = ?w2"
      unfolding checkAndProcess_blocks Let_def by auto
    have "logged (checkAndProcess env config w) = logged w @ ([LogCheckingTime ?now] @ n2)"
      unfolding e using n2(1) l1 by simp
    with n2(2,3) False show ?thesis by (intro exI) auto
  next
    case True
    let ?w3 = "log_Printf LogCheckingRealtime ?w2"
    have e: "checkAndProcess env config w = checkRealtimePriceChanges env ?w3"
      unfolding checkAndProcess_blocks Let_def using True by simp
    from log_grows_checkRealtimePriceChanges [of ?w3 env] obtain n3 where
      n3: "logged (checkRealtimePriceChanges env ?w3) = logged ?w3 @ n3"
        "LogStartingDailyReport \<notin> set n3"
      unfolding log_grows_def by blast
    have "logged (checkAndProcess env config w) =
        logged w @ ([LogCheckingTime ?now] @ n2 @ [LogCheckingRealtime] @ n3)"
      unfolding e using n3(1) n2(1) l1 by (simp add: log_Printf_def)
    with n2(3) n3(2) True show ?thesis by (intro exI) auto
  qed
qed

lemma new_lines_append: "logged w' = logged w @ new \<Longrightarrow> new_lines w w' = new"
  by (simp add: new_lines_def)

lemma new_calls_append: "outbox w' = outbox w @ new \<Longrightarrow> new_calls w w' = new"
  by (simp add: new_calls_def)

section \<open>The daily report\<close>

lemma daily_transition_fired:
  assumes "Hour now = CheckHour config" "Minute now < checkInterval"
    "lastProcessedDate w1 \<noteq> Some (Format_date now)"
  shows "lastProcessedDate (daily_transition env config now w1) = Some (Format_date now)"
    and "lastAlertSentMap (daily_transition env config now w1) = Map.empty"
    and "ticks (daily_transition env config now w1) = ticks w1"
    and "outbox (daily_transition env config now w1)
           = outbox (sendDailyReport env (log_Printf LogStartingDailyReport w1))"
  using assms
  by (simp_all add: daily_transition_def Let_def resetAlertMap_def log_Printf_def
      sendDailyReport_frame)

lemma daily_transition_calls:
  "\<exists>new. outbox (daily_transition env config now w1) = outbox w1 @ new
     \<and> filter is_SendAlerts new = []"
proof (cases "Hour now = CheckHour config \<and> Minute now < checkInterval
          \<and> lastProcessedDate w1 \<noteq> Some (Format_date now)")
  case False
  then have "daily_transition env config now w1 = w1" by (auto simp: daily_transition_def)
  then show ?thesis by simp
next
  case True
  then have "outbox (daily_transition env config now w1)
      = outbox (sendDailyReport env (log_Printf LogStartingDailyReport w1))"
    by (simp add: daily_transition_fired)
  then show ?thesis
    by (cases "fst (fetchAllPrices (dailyFetch env)
          (log_Printf LogFetchingForDailyReport (log_Printf LogStartingDailyReport w1)))")
       (simp_all add: sendDailyReport_outbox log_Printf_def is_SendAlerts_def)
qed

lemma checkAndProcess_not_due:
  "\<not> (isMarketOpen (tick_now env w) \<and> Minute (tick_now env w) mod realtimeCheckMinutes = 0) \<Longrightarrow>
     checkAndProcess env config w =
       daily_transition env config (tick_now env w)
         (log_Printf (LogCheckingTime (tick_now env w)) (snd (time_Now (clock env) w)))"
  unfolding checkAndProcess_blocks Let_def by auto

lemma checkAndProcess_due:
  "isMarketOpen (tick_now env w) \<and> Minute (tick_now env w) mod realtimeCheckMinutes = 0 \<Longrightarrow>
     checkAndProcess env config w =
       checkRealtimePriceChanges env
         (log_Printf LogCheckingRealtime
            (daily_transition env config (tick_now env w)
               (log_Printf (LogCheckingTime (tick_now env w)) (snd (time_Now (clock env) w)))))"
  unfolding checkAndProcess_blocks Let_def by simp

lemma weekend_closed:
  "Weekday now = Saturday \<or> Weekday now = Sunday \<Longrightarrow> \<not> isMarketOpen now"
  by (simp add: isMarketOpen_def)

lemma friday_all_fail_eval:
  "checkAndProcess env_all_fail DefaultConfig thursday_evening =
     \<lparr>lastProcessedDate = Some (2024, 3, 15), lastAlertSentMap = Map.empty,
      db = \<lparr>stocks = [], failure = None\<rparr>, ticks = Suc 0,
      logged =
        [LogCheckingTime fri_0700,
         LogStartingDailyReport, LogFetchingForDailyReport,
         LogErrFetchingPrice ''AAPL'' (WrapV ErrPriceFetchFailed DeadlineExceeded),
         LogErrFetchingPrice ''GOOGL'' (WrapV ErrPriceFetchFailed DeadlineExceeded),
         LogErrDailyFetch (ErrorString ''failed to fetch any stock prices''),
         LogDailyReportProcessed (Some (2024, 3, 15)), LogAlertMapReset,
         LogCheckingRealtime,
         LogErrFetchingPrice ''AAPL'' (WrapV ErrPriceFetchFailed DeadlineExceeded),
         LogErrFetchingPrice ''GOOGL'' (WrapV ErrPriceFetchFailed DeadlineExceeded),
         LogErrRealtimeFetch (ErrorString ''failed to fetch any stock prices'')],
      outbox = []\<rparr>"
  by (simp add: checkAndProcess_def sendDailyReport_def checkRealtimePriceChanges_def
      env_all_fail_def fetchAllPrices_def failed_fetch_def log_Printf_def thursday_evening_def
      startup_def DefaultConfig_def isMarketOpen_def checkInterval_def realtimeCheckMinutes_def
      resetAlertMap_def Format_date_def time_Now_def clock_rollover_def fri_0700_def Let_def)

lemma friday_second_tick_eval:
  "logged (checkAndProcess env_all_fail DefaultConfig
             (checkAndProcess env_all_fail DefaultConfig thursday_evening)) =
     logged (checkAndProcess env_all_fail DefaultConfig thursday_evening) @
       [LogCheckingTime fri_0700, LogCheckingRealtime,
        LogErrFetchingPrice ''AAPL'' (WrapV ErrPriceFetchFailed DeadlineExceeded),
        LogErrFetchingPrice ''GOOGL'' (WrapV ErrPriceFetchFailed DeadlineExceeded),
        LogErrRealtimeFetch (ErrorString ''failed to fetch any stock prices'')]"
  unfolding friday_all_fail_eval
  by (simp add: checkAndProcess_def sendDailyReport_def checkRealtimePriceChanges_def
      env_all_fail_def fetchAllPrices_def failed_fetch_def log_Printf_def
      DefaultConfig_def isMarketOpen_def checkInterval_def realtimeCheckMinutes_def
      resetAlertMap_def Format_date_def time_Now_def clock_rollover_def fri_0700_def Let_def)

lemma zero_successes_env_all_fail: "zero_successes (dailyFetch env_all_fail)"
  by (simp add: zero_successes_def env_all_fail_def failed_fetch_def)

text \<open>
  Claim C5 as stated fails. On Friday at 07:00 every fetch fails. The daily report fires
  and sends nothing, yet Friday is recorded as the last processed date, the entry that
  the alert map held for AAPL is gone, and a second tick at 07:00 of the same Friday does
  not start the report again.
\<close>

theorem daily_report_total_failure_counterexample:
  "zero_successes (dailyFetch env_all_fail)
   \<and> LogStartingDailyReport
        \<in> set (new_lines thursday_evening
                 (checkAndProcess env_all_fail DefaultConfig thursday_evening))
   \<and> lastProcessedDate (checkAndProcess env_all_fail DefaultConfig thursday_evening)
        = Some (Format_date fri_0700)
   \<and> lastAlertSentMap thursday_evening ''AAPL'' = Some thu_2130
   \<and> lastAlertSentMap (checkAndProcess env_all_fail DefaultConfig thursday_evening) ''AAPL''
        = None
   \<and> LogStartingDailyReport
        \<notin> set (new_lines (checkAndProcess env_all_fail DefaultConfig thursday_evening)
                 (checkAndProcess env_all_fail DefaultConfig
                    (checkAndProcess env_all_fail DefaultConfig thursday_evening)))"
proof -
  have 1: "LogStartingDailyReport
        \<in> set (new_lines thursday_evening
                 (checkAndProcess env_all_fail DefaultConfig thursday_evening))"
  proof -
    have l: "logged thursday_evening = []" by (simp add: thursday_evening_def startup_def)
    show ?thesis by (simp add: friday_all_fail_eval new_lines_def l)
  qed
  have 2: "lastProcessedDate (checkAndProcess env_all_fail DefaultConfig thursday_evening)
        = Some (Format_date fri_0700)"
    by (simp add: friday_all_fail_eval Format_date_def fri_0700_def)
  have 3: "lastAlertSentMap thursday_evening ''AAPL'' = Some thu_2130"
    by (simp add: thursday_evening_def)
  have 4: "lastAlertSentMap (checkAndProcess env_all_fail DefaultConfig thursday_evening)
      ''AAPL'' = None"
    by (simp add: friday_all_fail_eval)
  have 5: "LogStartingDailyReport
        \<notin> set (new_lines (checkAndProcess env_all_fail DefaultConfig thursday_evening)
                 (checkAndProcess env_all_fail DefaultConfig
                    (checkAndProcess env_all_fail DefaultConfig thursday_evening)))"
    unfolding new_lines_def friday_second_tick_eval by simp
  from zero_successes_env_all_fail 1 2 3 4 5 show ?thesis by simp
qed

text \<open>
  Claim C5, amended. When the daily report fires and its fetch cycle has zero successes,
  no summary is sent, but the transition completes all the same: today is recorded as the
  last processed date and the alert map is reset (any entry it holds after the tick was
  marked by the sweep of this very tick, and it is empty when no sweep was due), so the
  report does not fire again at any later tick of the same date.
\<close>

theorem daily_report_total_failure_still_processed:
  assumes "Hour (tick_now env w) = CheckHour config"
    and "Minute (tick_now env w) < checkInterval"
    and "lastProcessedDate w \<noteq> Some (Format_date (tick_now env w))"
    and "zero_successes (dailyFetch env)"
  shows "LogStartingDailyReport \<in> set (new_lines w (checkAndProcess env config w))
     \<and> filter is_SendMessage (new_calls w (checkAndProcess env config w)) = []
     \<and> lastProcessedDate (checkAndProcess env config w) = Some (Format_date (tick_now env w))
     \<and> (\<forall>s t. lastAlertSentMap (checkAndProcess env config w) s = Some t \<longrightarrow>
           (\<exists>n. ticks w < n \<and> n < ticks (checkAndProcess env config w) \<and> t = clock env n))
     \<and> (\<not> (isMarketOpen (tick_now env w)
              \<and> Minute (tick_now env w) mod realtimeCheckMinutes = 0) \<longrightarrow>
           lastAlertSentMap (checkAndProcess env config w) = Map.empty)
     \<and> (\<forall>env' config' w''.
           lastProcessedDate w'' = lastProcessedDate (checkAndProcess env config w)
           \<and> Format_date (tick_now env' w'') = Format_date (tick_now env w) \<longrightarrow>
           LogStartingDailyReport \<notin> set (new_lines w'' (checkAndProcess env' config' w'')))"
proof -
  let ?now = "tick_now env w"
  let ?w' = "checkAndProcess env config w"
  let ?w1 = "log_Printf (LogCheckingTime ?now) (snd (time_Now (clock env) w))"
  let ?w2 = "daily_transition env config ?now ?w1"
  have w1: "lastProcessedDate ?w1 = lastProcessedDate w" "outbox ?w1 = outbox w"
    "ticks ?w1 = Suc (ticks w)"
    by (simp_all add: log_Printf_def time_Now_def)
  have c: "lastProcessedDate ?w1 \<noteq> Some (Format_date ?now)" using assms(3) w1(1) by simp
  note f = daily_transition_fired [OF assms(1) assms(2) c, of env]
  have o2: "outbox ?w2 = outbox w"
    using f(4) sendDailyReport_zero_successes [OF assms(4)] w1(2) by (simp add: log_Printf_def)
  have fired: "LogStartingDailyReport \<in> set (new_lines w ?w')"
    using checkAndProcess_log [of env config w] assms(1,2,3)
    by (auto simp: new_lines_append)
  have rest: "filter is_SendMessage (new_calls w ?w') = []
     \<and> lastProcessedDate ?w' = Some (Format_date ?now)
     \<and> (\<forall>s t. lastAlertSentMap ?w' s = Some t \<longrightarrow>
           (\<exists>n. ticks w < n \<and> n < ticks ?w' \<and> t = clock env n))
     \<and> (\<not> (isMarketOpen ?now \<and> Minute ?now mod realtimeCheckMinutes = 0) \<longrightarrow>
           lastAlertSentMap ?w' = Map.empty)"
  proof (cases "isMarketOpen ?now \<and> Minute ?now mod realtimeCheckMinutes = 0")
    case False
    have e: "?w' = ?w2" by (rule checkAndProcess_not_due [OF False])
    show ?thesis
      unfolding e using f(1,2) o2 False by (simp add: new_calls_def)
  next
    case True
    let ?w3 = "log_Printf LogCheckingRealtime ?w2"
    have e: "?w' = checkRealtimePriceChanges env ?w3" by (rule checkAndProcess_due [OF True])
    have w3: "lastProcessedDate ?w3 = Some (Format_date ?now)"
      "lastAlertSentMap ?w3 = Map.empty" "ticks ?w3 = Suc (ticks w)" "outbox ?w3 = outbox w"
      using f(1,2,3) o2 w1(3) by (simp_all add: log_Printf_def)
    have calls: "filter is_SendMessage (new_calls w ?w') = []"
      unfolding e new_calls_def
      by (simp add: checkRealtimePriceChanges_outbox w3(4) is_SendMessage_def)
    have date: "lastProcessedDate ?w' = Some (Format_date ?now)"
      unfolding e by (simp add: checkRealtimePriceChanges_date w3(1))
    have entries: "\<exists>n. ticks w < n \<and> n < ticks ?w' \<and> t = clock env n"
      if "lastAlertSentMap ?w' s = Some t" for s t
    proof -
      from that have "lastAlertSentMap (checkRealtimePriceChanges env ?w3) s = Some t"
        unfolding e .
      from checkRealtimePriceChanges_entries [OF this] w3(2,3)
      obtain n where "Suc (ticks w) \<le> n" "n < ticks (checkRealtimePriceChanges env ?w3)"
        "t = clock env n" by auto
      then show ?thesis unfolding e by (intro exI [of _ n]) simp
    qed
    from calls date entries True show ?thesis by blast
  qed
  have again: "LogStartingDailyReport \<notin> set (new_lines w'' (checkAndProcess env' config' w''))"
    if "lastProcessedDate w'' = lastProcessedDate ?w'"
      "Format_date (tick_now env' w'') = Format_date ?now" for env' config' w''
  proof -
    from rest that have "lastProcessedDate w'' = Some (Format_date (tick_now env' w''))"
      by simp
    with checkAndProcess_log [of env' config' w''] show ?thesis
      by (auto simp: new_lines_append)
  qed
  from fired rest again show ?thesis by blast
qed

theorem daily_report_total_failure_still_processed_witness:
  "Hour (tick_now env_all_fail thursday_evening) = CheckHour DefaultConfig
   \<and> Minute (tick_now env_all_fail thursday_evening) < checkInterval
   \<and> lastProcessedDate thursday_evening
        \<noteq> Some (Format_date (tick_now env_all_fail thursday_evening))
   \<and> zero_successes (dailyFetch env_all_fail)
   \<and> filter is_SendMessage
        (new_calls thursday_evening
           (checkAndProcess env_all_fail DefaultConfig thursday_evening)) = []
   \<and> lastProcessedDate (checkAndProcess env_all_fail DefaultConfig thursday_evening)
        = Some (2024, 3, 15)
   \<and> LogStartingDailyReport
        \<notin> set (new_lines (checkAndProcess env_all_fail DefaultConfig thursday_evening)
                 (checkAndProcess env_all_fail DefaultConfig
                    (checkAndProcess env_all_fail DefaultConfig thursday_evening)))"
proof -
  have n: "tick_now env_all_fail thursday_evening = fri_0700"
    by (simp add: tick_now_def env_all_fail_def thursday_evening_def startup_def
        clock_rollover_def)
  have n2: "tick_now env_all_fail (checkAndProcess env_all_fail DefaultConfig thursday_evening)
      = fri_0700"
  proof -
    have t: "ticks (checkAndProcess env_all_fail DefaultConfig thursday_evening) = 1"
      by (simp add: friday_all_fail_eval)
    have c: "clock env_all_fail = clock_rollover" "In_loc env_all_fail = (\<lambda>t. t)"
      by (simp_all add: env_all_fail_def)
    show ?thesis by (simp add: tick_now_def t c clock_rollover_def)
  qed
  have h1: "Hour (tick_now env_all_fail thursday_evening) = CheckHour DefaultConfig"
    by (simp add: n fri_0700_def DefaultConfig_def)
  have h2: "Minute (tick_now env_all_fail thursday_evening) < checkInterval"
    by (simp add: n fri_0700_def checkInterval_def)
  have h3: "lastProcessedDate thursday_evening
        \<noteq> Some (Format_date (tick_now env_all_fail thursday_evening))"
  proof -
    have lp: "lastProcessedDate thursday_evening = Some (2024, 3, 14)"
      by (simp add: thursday_evening_def)
    show ?thesis by (simp add: n fri_0700_def Format_date_def lp)
  qed
  note h4 = zero_successes_env_all_fail
  note T = daily_report_total_failure_still_processed [OF h1 h2 h3 h4]
  from T have 1: "filter is_SendMessage
        (new_calls thursday_evening
           (checkAndProcess env_all_fail DefaultConfig thursday_evening)) = []"
    by blast
  from T have 2: "lastProcessedDate (checkAndProcess env_all_fail DefaultConfig thursday_evening)
        = Some (2024, 3, 15)"
    by (simp add: n Format_date_def fri_0700_def)
  from T have "\<forall>env' config' w''.
           lastProcessedDate w''
             = lastProcessedDate (checkAndProcess env_all_fail DefaultConfig thursday_evening)
           \<and> Format_date (tick_now env' w'')
             = Format_date (tick_now env_all_fail thursday_evening) \<longrightarrow>
           LogStartingDailyReport \<notin> set (new_lines w'' (checkAndProcess env' config' w''))"
    by blast
  then have 3: "LogStartingDailyReport
        \<notin> set (new_lines (checkAndProcess env_all_fail DefaultConfig thursday_evening)
                 (checkAndProcess env_all_fail DefaultConfig
                    (checkAndProcess env_all_fail DefaultConfig thursday_evening)))"
    using n n2 by simp
  from h1 h2 h3 h4 1 2 3 show ?thesis by simp
qed

section \<open>The realtime sweep\<close>

lemma googl_sweep_eval:
  "checkRealtimePriceChanges env_googl with_closings =
     \<lparr>lastProcessedDate = None, lastAlertSentMap = [''GOOGL'' \<mapsto> fri_0700],
      db = \<lparr>stocks =
              [\<lparr>doc_Symbol = ''GOOGL'', doc_Price = ''100'', Timestamp = fri_0700,
                 IsClosing = True\<rparr>,
               \<lparr>doc_Symbol = ''TSLA'', doc_Price = ''0'', Timestamp = fri_0700,
                 IsClosing = True\<rparr>,
               \<lparr>doc_Symbol = ''GOOGL'', doc_Price = ''106'', Timestamp = fri_0700,
                 IsClosing = False\<rparr>],
            failure = None\<rparr>,
      ticks = 3,
      logged =
        [LogErrFetchingPrice ''AAPL'' (WrapV ErrPriceFetchFailed DeadlineExceeded),
         LogFetchedCount 1, LogSaved ''GOOGL'' ''106'' False,
         LogSignificantChange ''GOOGL'' (Finite False 6), LogSendingAlerts 1,
         LogErrAlertsSend (ErrorString ''failed to send message'')],
      outbox = [SendAlerts [googl_alert]]\<rparr>"
  by (simp add: checkRealtimePriceChanges_def env_googl_def fetchAllPrices_def failed_fetch_def
      fetched_def log_Printf_def with_closings_def startup_def canSendAlert_def
      checkPriceChange_def GetLatestClosingPrice_def ParseFloat_digits_examples percent_change_examples signed_def
      alertThreshold_def time_Now_def SavePrice_def markAlertSent_def messenger_call_def
      clock_rollover_def googl_alert_def Let_def numeral_3_eq_3)

lemma googl_fetch_eval:
  "fst (fetchAllPrices (realtimeFetch env_googl) with_closings) = Inr [(''GOOGL'', ''106'')]"
  by (simp add: env_googl_def fetchAllPrices_def failed_fetch_def fetched_def)

lemma googl_batch_eval: "sweep_batch env_googl with_closings = [googl_alert]"
  by (simp add: sweep_batch_def env_googl_def fetchAllPrices_def failed_fetch_def
      fetched_def log_Printf_def with_closings_def startup_def canSendAlert_def
      checkPriceChange_def GetLatestClosingPrice_def ParseFloat_digits_examples percent_change_examples signed_def
      alertThreshold_def time_Now_def SavePrice_def markAlertSent_def
      clock_rollover_def googl_alert_def Let_def)

lemma env_googl_fields:
  "clock env_googl = clock_rollover" "In_loc env_googl = (\<lambda>t. t)"
  "ParseFloat env_googl = ParseFloat_digits"
  "realtimeSend env_googl = Some (ErrorString ''failed to send message'')"
  by (simp_all add: env_googl_def)

lemma env_saturday_fields:
  "clock env_saturday = (\<lambda>n. sat_0700)" "In_loc env_saturday = (\<lambda>t. t)"
  by (simp_all add: env_saturday_def env_googl_def)

lemma with_closings_fields:
  "ticks with_closings = 0" "lastAlertSentMap with_closings = Map.empty"
  "outbox with_closings = []" "logged with_closings = []"
  by (simp_all add: with_closings_def startup_def)

text \<open>
  Claim C6. A tick logs the start of a realtime sweep, and then runs
  \<open>checkRealtimePriceChanges\<close>, exactly when \<open>isMarketOpen\<close> holds of the tick's time and
  its minute is a multiple of 30; otherwise the tick makes no \<^verbatim>\<open>SendAlerts\<close> call. On a
  Saturday or Sunday \<open>isMarketOpen\<close> is false, so no sweep runs. A sweep from a state
  \<open>w0\<close> makes one \<^verbatim>\<open>SendAlerts\<close> call with the whole batch it collected, and none when
  the batch is empty. Every alert of the batch is for a symbol of the fetched price map
  whose price shows a significant change and whose gate was not shut; and every symbol of
  the price map with a significant change and an open gate has its alert in the batch.
\<close>

theorem realtime_sweep_due_and_batched:
  "(LogCheckingRealtime \<in> set (new_lines w (checkAndProcess env config w)) \<longleftrightarrow>
      isMarketOpen (tick_now env w) \<and> Minute (tick_now env w) mod 30 = 0)
   \<and> (isMarketOpen (tick_now env w) \<and> Minute (tick_now env w) mod 30 = 0 \<longrightarrow>
        checkAndProcess env config w =
          checkRealtimePriceChanges env
            (log_Printf LogCheckingRealtime
               (daily_transition env config (tick_now env w)
                  (log_Printf (LogCheckingTime (tick_now env w))
                     (snd (time_Now (clock env) w))))))
   \<and> (\<not> (isMarketOpen (tick_now env w) \<and> Minute (tick_now env w) mod 30 = 0) \<longrightarrow>
        filter is_SendAlerts (new_calls w (checkAndProcess env config w)) = [])
   \<and> (Weekday (tick_now env w) = Saturday \<or> Weekday (tick_now env w) = Sunday \<longrightarrow>
        \<not> isMarketOpen (tick_now env w)
        \<and> LogCheckingRealtime \<notin> set (new_lines w (checkAndProcess env config w))
        \<and> filter is_SendAlerts (new_calls w (checkAndProcess env config w)) = [])
   \<and> new_calls w0 (checkRealtimePriceChanges env w0)
        = (if sweep_batch env w0 = [] then [] else [SendAlerts (sweep_batch env w0)])
   \<and> (\<forall>a \<in> set (sweep_batch env w0).
         \<not> gate_shut_from (clock env) w0 (alert_Symbol a)
         \<and> (\<exists>prices p. fst (fetchAllPrices (realtimeFetch env) w0) = Inr prices
               \<and> (alert_Symbol a, p) \<in> set prices
               \<and> significant_change (ParseFloat env) (db w0) (alert_Symbol a) p))
   \<and> (\<forall>prices s p.
         fst (fetchAllPrices (realtimeFetch env) w0) = Inr prices \<and> (s, p) \<in> set prices
         \<and> significant_change (ParseFloat env) (db w0) s p
         \<and> gate_open_from (clock env) w0 s \<longrightarrow>
         (\<exists>a \<in> set (sweep_batch env w0). alert_Symbol a = s))"
proof -
  let ?now = "tick_now env w"
  let ?w' = "checkAndProcess env config w"
  let ?due = "isMarketOpen ?now \<and> Minute ?now mod 30 = 0"
  have due: "?due \<longleftrightarrow> isMarketOpen ?now \<and> Minute ?now mod realtimeCheckMinutes = 0"
    by (simp add: realtimeCheckMinutes_def)
  have 1: "LogCheckingRealtime \<in> set (new_lines w ?w') \<longleftrightarrow> ?due"
    using checkAndProcess_log [of env config w] unfolding due by (auto simp: new_lines_append)
  have 2: "?due \<longrightarrow> ?w' =
          checkRealtimePriceChanges env
            (log_Printf LogCheckingRealtime
               (daily_transition env config ?now
                  (log_Printf (LogCheckingTime ?now) (snd (time_Now (clock env) w)))))"
    unfolding due using checkAndProcess_due [of env w config] by blast
  have 3: "filter is_SendAlerts (new_calls w ?w') = []" if "\<not> ?due"
  proof -
    let ?w1 = "log_Printf (LogCheckingTime ?now) (snd (time_Now (clock env) w))"
    from that have e: "?w' = daily_transition env config ?now ?w1"
      unfolding due by (rule checkAndProcess_not_due)
    have o: "outbox ?w1 = outbox w" by (simp add: log_Printf_def time_Now_def)
    from daily_transition_calls [of env config ?now ?w1] obtain new where
      "outbox (daily_transition env config ?now ?w1) = outbox w @ new"
      "filter is_SendAlerts new = []"
      unfolding o by blast
    then show ?thesis unfolding e by (simp add: new_calls_append)
  qed
  have 4: "\<not> isMarketOpen ?now \<and> LogCheckingRealtime \<notin> set (new_lines w ?w')
        \<and> filter is_SendAlerts (new_calls w ?w') = []"
    if "Weekday ?now = Saturday \<or> Weekday ?now = Sunday"
    using weekend_closed [OF that] 1 3 by blast
  have 5: "new_calls w0 (checkRealtimePriceChanges env w0)
        = (if sweep_batch env w0 = [] then [] else [SendAlerts (sweep_batch env w0)])"
    by (rule new_calls_append) (rule checkRealtimePriceChanges_outbox)
  have 6: "\<not> gate_shut_from (clock env) w0 (alert_Symbol a)
         \<and> (\<exists>prices p. fst (fetchAllPrices (realtimeFetch env) w0) = Inr prices
               \<and> (alert_Symbol a, p) \<in> set prices
               \<and> significant_change (ParseFloat env) (db w0) (alert_Symbol a) p)"
    if "a \<in> set (sweep_batch env w0)" for a
    using sweep_batch_sound [OF that] sweep_batch_shut [of env w0 "alert_Symbol a"] that
    by blast
  have 7: "\<exists>a \<in> set (sweep_batch env w0). alert_Symbol a = s"
    if "fst (fetchAllPrices (realtimeFetch env) w0) = Inr prices \<and> (s, p) \<in> set prices
         \<and> significant_change (ParseFloat env) (db w0) s p
         \<and> gate_open_from (clock env) w0 s" for prices s p
    using that sweep_batch_complete [of env w0 prices s p] by blast
  from 1 2 3 4 5 6 7 show ?thesis by blast
qed

theorem realtime_sweep_due_and_batched_witness:
  "isMarketOpen (tick_now env_googl with_closings)
   \<and> Minute (tick_now env_googl with_closings) mod 30 = 0
   \<and> LogCheckingRealtime
        \<in> set (new_lines with_closings (checkAndProcess env_googl DefaultConfig with_closings))
   \<and> Weekday (tick_now env_saturday with_closings) = Saturday
   \<and> Hour (tick_now env_saturday with_closings) = 7
   \<and> Minute (tick_now env_saturday with_closings) mod 30 = 0
   \<and> LogCheckingRealtime
        \<notin> set (new_lines with_closings
                 (checkAndProcess env_saturday DefaultConfig with_closings))
   \<and> filter is_SendAlerts
        (new_calls with_closings (checkAndProcess env_saturday DefaultConfig with_closings)) = []
   \<and> new_calls with_closings (checkRealtimePriceChanges env_googl with_closings)
        = [SendAlerts [googl_alert]]
   \<and> (\<exists>a \<in> set (sweep_batch env_googl with_closings). alert_Symbol a = ''GOOGL'')
   \<and> sweep_batch env_all_fail with_closings = []
   \<and> new_calls with_closings (checkRealtimePriceChanges env_all_fail with_closings) = []"
proof -
  note T1 = realtime_sweep_due_and_batched [of with_closings env_googl DefaultConfig with_closings]
  note T2 = realtime_sweep_due_and_batched [of with_closings env_saturday DefaultConfig with_closings]
  note T3 = realtime_sweep_due_and_batched [of with_closings env_all_fail DefaultConfig with_closings]
  have n1: "tick_now env_googl with_closings = fri_0700"
    by (simp add: tick_now_def env_googl_fields with_closings_fields clock_rollover_def)
  have n2: "tick_now env_saturday with_closings = sat_0700"
    by (simp add: tick_now_def env_saturday_fields)
  have a: "isMarketOpen (tick_now env_googl with_closings)"
    "Minute (tick_now env_googl with_closings) mod 30 = 0"
    unfolding n1 by (simp_all add: isMarketOpen_def fri_0700_def)
  have b: "Weekday (tick_now env_saturday with_closings) = Saturday"
    "Hour (tick_now env_saturday with_closings) = 7"
    "Minute (tick_now env_saturday with_closings) mod 30 = 0"
    unfolding n2 by (simp_all add: sat_0700_def)
  from T1 a have 1: "LogCheckingRealtime
        \<in> set (new_lines with_closings (checkAndProcess env_googl DefaultConfig with_closings))"
    by blast
  from T2 b(1) have 2: "LogCheckingRealtime
        \<notin> set (new_lines with_closings
                 (checkAndProcess env_saturday DefaultConfig with_closings))
     \<and> filter is_SendAlerts
        (new_calls with_closings (checkAndProcess env_saturday DefaultConfig with_closings)) = []"
    by blast
  from T1 have 3: "new_calls with_closings (checkRealtimePriceChanges env_googl with_closings)
        = [SendAlerts [googl_alert]]"
    by (simp add: googl_batch_eval)
  have q: "significant_change (ParseFloat env_googl) (db with_closings) ''GOOGL'' ''106''"
    by (simp add: significant_change_def env_googl_fields GetLatestClosingPrice_with_closings
        ParseFloat_digits_examples alertThreshold_def percent_change_examples signed_def)
  have g: "gate_open_from (clock env_googl) with_closings ''GOOGL''"
    by (simp add: gate_open_from_def with_closings_fields)
  from T1 googl_fetch_eval q g
  have 4: "\<exists>a \<in> set (sweep_batch env_googl with_closings). alert_Symbol a = ''GOOGL''"
    by (metis list.set_intros(1))
  have e: "sweep_batch env_all_fail with_closings = []"
    by (simp add: sweep_batch_def env_all_fail_def fetchAllPrices_def failed_fetch_def
        log_Printf_def)
  from T3 e have 5: "new_calls with_closings
      (checkRealtimePriceChanges env_all_fail with_closings) = []"
    by simp
  from a b 1 2 3 4 e 5 show ?thesis by simp
qed

section \<open>The alert gate across the ticks of a day\<close>

subsection \<open>A symbol whose gate is shut\<close>









subsection \<open>The ticks of a run\<close>



subsection \<open>A tick that runs the daily report\<close>






subsection \<open>The ticks of a Friday\<close>











section \<open>The goroutines of FetchPriceConcurrent\<close>

subsection \<open>The semaphore\<close>

lemma filter_update_count:
  "i < length xs \<Longrightarrow>
     length (filter P (xs[i := y])) + (if P (xs ! i) then 1 else 0)
       = length (filter P xs) + (if P y then 1 else 0)"
proof (induction xs arbitrary: i)
  case Nil
  then show ?case by simp
next
  case (Cons x xs)
  show ?case
  proof (cases i)
    case 0
    then show ?thesis by simp
  next
    case (Suc j)
    with Cons.prems have "j < length xs" by simp
    from Cons.IH [OF this] Suc show ?thesis by simp
  qed
qed

lemma in_flight_holding: "in_flight w \<Longrightarrow> holding w"
  by (cases w rule: in_flight.cases) simp_all

lemma in_flight_le_holding:
  "length (filter in_flight ws) \<le> length (filter holding ws)"
proof (induction ws)
  case Nil
  show ?case by simp
next
  case (Cons w ws)
  then show ?case using in_flight_holding [of w] by auto
qed

lemma sem_inv_start: "sem_inv limit (FetchPriceConcurrent_start limit)"
  by (simp add: sem_inv_def FetchPriceConcurrent_start_def)

lemma sem_inv_main: "sem_inv limit c \<Longrightarrow> step_main tickers c = Some c' \<Longrightarrow> sem_inv limit c'"
  by (auto simp: sem_inv_def step_main_def split: main_pc.splits list.splits if_splits)

lemma sem_inv_closer: "sem_inv limit c \<Longrightarrow> step_closer c = Some c' \<Longrightarrow> sem_inv limit c'"
  by (auto simp: sem_inv_def step_closer_def split: closer_pc.splits if_splits)

lemma sem_inv_worker:
  assumes "sem_inv limit c" "step_worker fetch tickers limit c i = Some c'"
  shows "sem_inv limit c'"
proof -
  from assms(2) have i: "i < length (workers c)"
    by (auto simp: step_worker_def split: if_splits)
  obtain s pc where w: "workers c ! i = (s, pc)" by (cases "workers c ! i")
  note u = filter_update_count [OF i, of holding]
  from assms(1) have h: "sem c = length (filter holding (workers c))"
    "0 \<le> limit \<longrightarrow> int (sem c) \<le> limit"
    by (auto simp: sem_inv_def)
  show ?thesis
  proof (cases pc)
    case AtAcquire
    with assms(2) i w have c': "c' = c\<lparr>sem := Suc (sem c), workers := (workers c)[i := (s, AtFetch)]\<rparr>"
      and lt: "int (sem c) < limit"
      by (auto simp: step_worker_def split: if_splits)
    from u [of "(s, AtFetch)"] w AtAcquire h lt show ?thesis
      unfolding c' sem_inv_def by simp
  next
    case AtFetch
    with assms(2) i w obtain r where
      c': "c' = c\<lparr>workers := (workers c)[i := (s, AtSend r)]\<rparr>"
      by (auto simp: step_worker_def Let_def split: if_splits)
    from u [of "(s, AtSend r)"] w AtFetch h show ?thesis
      unfolding c' sem_inv_def by simp
  next
    case (AtSend r)
    with assms(2) i w have
      "c' = c\<lparr>panicked := True\<rparr>
       \<or> c' = c\<lparr>results := results c @ [r], workers := (workers c)[i := (s, AtRelease)]\<rparr>"
      by (auto simp: step_worker_def split: if_splits)
    with u [of "(s, AtRelease)"] w AtSend h show ?thesis
      unfolding sem_inv_def by auto
  next
    case AtRelease
    with assms(2) i w have c': "c' = c\<lparr>sem := sem c - 1, workers := (workers c)[i := (s, AtDone)]\<rparr>"
      and gt: "0 < sem c"
      by (auto simp: step_worker_def split: if_splits)
    from u [of "(s, AtDone)"] w AtRelease h gt show ?thesis
      unfolding c' sem_inv_def by auto
  next
    case AtDone
    with assms(2) i w have
      "c' = c\<lparr>panicked := True\<rparr>
       \<or> c' = c\<lparr>wg := wg c - 1, workers := (workers c)[i := (s, Exited)]\<rparr>"
      by (auto simp: step_worker_def split: if_splits)
    with u [of "(s, Exited)"] w AtDone h show ?thesis
      unfolding sem_inv_def by auto
  next
    case Exited
    with assms(2) i w show ?thesis by (simp add: step_worker_def)
  qed
qed

lemma sem_inv_step:
  "sem_inv limit c \<Longrightarrow> step fetch tickers limit c a = Some c' \<Longrightarrow> sem_inv limit c'"
  by (cases a)
     (auto simp: step_def split: if_splits
       intro: sem_inv_main sem_inv_closer sem_inv_worker)

lemma sem_inv_run:
  "sem_inv limit c \<Longrightarrow> run fetch tickers limit c sched = Some c' \<Longrightarrow> sem_inv limit c'"
proof (induction sched arbitrary: c)
  case Nil
  then show ?case by simp
next
  case (Cons a sched)
  from Cons.prems(2) obtain c1 where s: "step fetch tickers limit c a = Some c1"
    and r: "run fetch tickers limit c1 sched = Some c'"
    by (auto split: option.splits)
  from Cons.IH [OF sem_inv_step [OF Cons.prems(1) s] r] show ?case .
qed

lemma run_panicked:
  "panicked c \<Longrightarrow> run fetch tickers limit c sched = Some c' \<Longrightarrow> c' = c"
  by (cases sched) (simp_all add: step_def)

lemmas conc_eval =
  FetchPriceConcurrent_def FetchPriceConcurrent_start_def step_def step_main_def
  step_closer_def step_worker_def Let_def

lemma two_slots_taken_eval:
  "FetchPriceConcurrent fetch_106 three_tickers 2 sched_two_slots_taken =
     Some \<lparr>workers = [(''AAPL'', AtFetch), (''GOOGL'', AtFetch), (''AMZN'', AtAcquire)],
           sem = 2, results = [], closed = False, wg = 3, main_at = Ranging,
           closer_at = Waiting, priceMap = Map.empty, returned = None, panicked = False\<rparr>"
  by (simp add: conc_eval three_tickers_def sched_two_slots_taken_def)

lemma slot_freed_eval:
  "FetchPriceConcurrent fetch_106 three_tickers 2 sched_slot_freed =
     Some \<lparr>workers = [(''AAPL'', AtDone), (''GOOGL'', AtFetch), (''AMZN'', AtAcquire)],
           sem = 1,
           results = [\<lparr>Symbol = ''AAPL'', Price = ''106'', Error = None\<rparr>],
           closed = False, wg = 3, main_at = Ranging,
           closer_at = Waiting, priceMap = Map.empty, returned = None, panicked = False\<rparr>"
  by (simp add: conc_eval three_tickers_def sched_slot_freed_def sched_two_slots_taken_def
      fetch_106_def)

text \<open>
  Claim C8. In every state that \<^verbatim>\<open>FetchPriceConcurrent\<close> reaches, under any schedule of its
  goroutines, the workers inside \<^verbatim>\<open>FetchPrice\<close> are among those that hold a slot, the
  workers that hold a slot are as many as the elements of \<^verbatim>\<open>sem\<close>, and for a limit
  \<open>k \<ge> 0\<close> they are at most \<open>k\<close> (with a negative limit \<^verbatim>\<open>make\<close> panics and no worker is
  started). A worker that waits for a slot cannot move exactly while \<open>k\<close> workers hold
  one: it blocks until a slot is given back.
\<close>

theorem at_most_limit_fetches_in_flight:
  "FetchPriceConcurrent fetch tickers limit sched = Some c \<Longrightarrow>
     length (filter in_flight (workers c)) \<le> length (filter holding (workers c))
   \<and> length (filter holding (workers c)) = sem c
   \<and> (0 \<le> limit \<longrightarrow>
        int (length (filter in_flight (workers c))) \<le> limit
        \<and> int (length (filter holding (workers c))) \<le> limit)
   \<and> (limit < 0 \<longrightarrow> workers c = [])
   \<and> (\<forall>i. i < length (workers c) \<and> snd (workers c ! i) = AtAcquire \<and> \<not> panicked c \<longrightarrow>
         (step fetch tickers limit c (Worker i) = None
            \<longleftrightarrow> limit \<le> int (length (filter holding (workers c)))))"
proof -
  assume r: "FetchPriceConcurrent fetch tickers limit sched = Some c"
  then have run: "run fetch tickers limit (FetchPriceConcurrent_start limit) sched = Some c"
    by (simp add: FetchPriceConcurrent_def)
  have inv: "sem_inv limit c"
    by (rule sem_inv_run [OF sem_inv_start run])
  then have h: "sem c = length (filter holding (workers c))"
    and b: "0 \<le> limit \<longrightarrow> int (sem c) \<le> limit"
    by (auto simp: sem_inv_def)
  note f = in_flight_le_holding [of "workers c"]
  have neg: "workers c = []" if "limit < 0"
  proof -
    from that have "panicked (FetchPriceConcurrent_start limit)"
      by (simp add: FetchPriceConcurrent_start_def)
    from run_panicked [OF this run] show ?thesis
      by (simp add: FetchPriceConcurrent_start_def)
  qed
  have blk: "step fetch tickers limit c (Worker i) = None
            \<longleftrightarrow> limit \<le> int (length (filter holding (workers c)))"
    if "i < length (workers c) \<and> snd (workers c ! i) = AtAcquire \<and> \<not> panicked c" for i
    using that h by (auto simp: step_def step_worker_def Let_def)
  from f h b neg blk show ?thesis by auto
qed

theorem at_most_limit_fetches_in_flight_witness:
  "(\<exists>c. FetchPriceConcurrent fetch_106 three_tickers 2 sched_two_slots_taken = Some c
       \<and> length (filter in_flight (workers c)) = 2
       \<and> snd (workers c ! 2) = AtAcquire
       \<and> step fetch_106 three_tickers 2 c (Worker 2) = None)
   \<and> (\<exists>c. FetchPriceConcurrent fetch_106 three_tickers 2 sched_slot_freed = Some c
       \<and> length (filter in_flight (workers c)) = 1
       \<and> snd (workers c ! 2) = AtAcquire
       \<and> step fetch_106 three_tickers 2 c (Worker 2) \<noteq> None)"
proof -
  let ?c1 = "\<lparr>workers = [(''AAPL'', AtFetch), (''GOOGL'', AtFetch), (''AMZN'', AtAcquire)],
           sem = 2, results = [], closed = False, wg = 3, main_at = Ranging,
           closer_at = Waiting, priceMap = Map.empty, returned = None, panicked = False\<rparr>"
  let ?c2 = "\<lparr>workers = [(''AAPL'', AtDone), (''GOOGL'', AtFetch), (''AMZN'', AtAcquire)],
           sem = 1,
           results = [\<lparr>Symbol = ''AAPL'', Price = ''106'', Error = None\<rparr>],
           closed = False, wg = 3, main_at = Ranging,
           closer_at = Waiting, priceMap = Map.empty, returned = None, panicked = False\<rparr>"
  from at_most_limit_fetches_in_flight [OF two_slots_taken_eval]
  have 1: "step fetch_106 three_tickers 2 ?c1 (Worker 2) = None" by simp
  from at_most_limit_fetches_in_flight [OF slot_freed_eval]
  have 2: "step fetch_106 three_tickers 2 ?c2 (Worker 2) \<noteq> None" by simp
  have "FetchPriceConcurrent fetch_106 three_tickers 2 sched_two_slots_taken = Some ?c1
       \<and> length (filter in_flight (workers ?c1)) = 2
       \<and> snd (workers ?c1 ! 2) = AtAcquire
       \<and> step fetch_106 three_tickers 2 ?c1 (Worker 2) = None"
    using 1 two_slots_taken_eval by simp
  moreover have "FetchPriceConcurrent fetch_106 three_tickers 2 sched_slot_freed = Some ?c2
       \<and> length (filter in_flight (workers ?c2)) = 1
       \<and> snd (workers ?c2 ! 2) = AtAcquire
       \<and> step fetch_106 three_tickers 2 ?c2 (Worker 2) \<noteq> None"
    using 2 slot_freed_eval by simp
  ultimately show ?thesis by blast
qed

subsection \<open>The steps, case by case\<close>

lemma step_main_cases:
  assumes "step_main tickers c = Some c'"
  obtains
    (spawn) i where "main_at c = Spawning i" "i < length tickers"
      "c' = c\<lparr>wg := wg c + 1, workers := workers c @ [(tickers ! i, AtAcquire)],
              main_at := Spawning (Suc i)\<rparr>"
  | (start_closer) i where "main_at c = Spawning i" "\<not> i < length tickers"
      "c' = c\<lparr>closer_at := Waiting, main_at := Ranging\<rparr>"
  | (receive) r rest where "main_at c = Ranging" "results c = r # rest"
      "c' = c\<lparr>results := rest, priceMap := (priceMap c)(Symbol r \<mapsto> r)\<rparr>"
  | (return) "main_at c = Ranging" "results c = []" "closed c"
      "c' = c\<lparr>main_at := Returned, returned := Some (priceMap c, None)\<rparr>"
  using assms
  by (auto simp: step_main_def split: main_pc.splits list.splits if_splits)

lemma step_closer_cases:
  assumes "step_closer c = Some c'"
  obtains
    (wait) "closer_at c = Waiting" "wg c = 0" "c' = c\<lparr>closer_at := Closing\<rparr>"
  | (close) "closer_at c = Closing" "c' = c\<lparr>closed := True, closer_at := Finished\<rparr>"
  using assms
  by (auto simp: step_closer_def split: closer_pc.splits if_splits)

lemma step_worker_cases:
  assumes "step_worker fetch tickers limit c i = Some c'"
  obtains
    (acquire) s where "i < length (workers c)" "workers c ! i = (s, AtAcquire)"
      "int (sem c) < limit"
      "c' = c\<lparr>sem := Suc (sem c), workers := (workers c)[i := (s, AtFetch)]\<rparr>"
  | (fetch) s where "i < length (workers c)" "workers c ! i = (s, AtFetch)"
      "c' = c\<lparr>workers := (workers c)
          [i := (s, AtSend \<lparr>Symbol = s, Price = fst (fetch i (url_of (GetURLs tickers) s)),
                             Error = snd (fetch i (url_of (GetURLs tickers) s))\<rparr>)]\<rparr>"
  | (send_closed) s r where "i < length (workers c)" "workers c ! i = (s, AtSend r)"
      "closed c" "c' = c\<lparr>panicked := True\<rparr>"
  | (send) s r where "i < length (workers c)" "workers c ! i = (s, AtSend r)"
      "\<not> closed c" "length (results c) < length tickers"
      "c' = c\<lparr>results := results c @ [r], workers := (workers c)[i := (s, AtRelease)]\<rparr>"
  | (release) s where "i < length (workers c)" "workers c ! i = (s, AtRelease)"
      "0 < sem c"
      "c' = c\<lparr>sem := sem c - 1, workers := (workers c)[i := (s, AtDone)]\<rparr>"
  | (wg_negative) s where "i < length (workers c)" "workers c ! i = (s, AtDone)"
      "wg c \<le> 0" "c' = c\<lparr>panicked := True\<rparr>"
  | (wg_done) s where "i < length (workers c)" "workers c ! i = (s, AtDone)"
      "0 < wg c"
      "c' = c\<lparr>wg := wg c - 1, workers := (workers c)[i := (s, Exited)]\<rparr>"
proof -
  from assms have i: "i < length (workers c)"
    by (auto simp: step_worker_def split: if_splits)
  obtain s pc where w: "workers c ! i = (s, pc)" by (cases "workers c ! i")
  show ?thesis
  proof (cases pc)
    case AtAcquire
    with assms i w show ?thesis
      by (intro acquire [of s]) (auto simp: step_worker_def split: if_splits)
  next
    case AtFetch
    with assms i w show ?thesis
      by (intro fetch [of s]) (auto simp: step_worker_def Let_def split: if_splits)
  next
    case (AtSend r)
    show ?thesis
    proof (cases "closed c")
      case True
      with AtSend assms i w show ?thesis
        by (intro send_closed [of s r]) (auto simp: step_worker_def split: if_splits)
    next
      case False
      with AtSend assms i w show ?thesis
        by (intro send [of s r]) (auto simp: step_worker_def split: if_splits)
    qed
  next
    case AtRelease
    with assms i w show ?thesis
      by (intro release [of s]) (auto simp: step_worker_def split: if_splits)
  next
    case AtDone
    show ?thesis
    proof (cases "wg c \<le> 0")
      case True
      with AtDone assms i w show ?thesis
        by (intro wg_negative [of s]) (auto simp: step_worker_def split: if_splits)
    next
      case False
      with AtDone assms i w show ?thesis
        by (intro wg_done [of s]) (auto simp: step_worker_def split: if_splits)
    qed
  next
    case Exited
    with assms i w show ?thesis by (simp add: step_worker_def)
  qed
qed

subsection \<open>The starting loop\<close>

lemma spawn_inv_start: "spawn_inv tickers (FetchPriceConcurrent_start limit)"
  by (simp add: spawn_inv_def FetchPriceConcurrent_start_def)

lemma spawn_inv_main:
  assumes "spawn_inv tickers c" "step_main tickers c = Some c'"
  shows "spawn_inv tickers c'"
  using assms(2)
proof (cases rule: step_main_cases)
  case (spawn i)
  with assms(1) show ?thesis
    by (auto simp: spawn_inv_def nth_append less_Suc_eq)
next
  case (start_closer i)
  with assms(1) show ?thesis by (auto simp: spawn_inv_def)
next
  case (receive r rest)
  with assms(1) show ?thesis by (auto simp: spawn_inv_def)
next
  case return
  with assms(1) show ?thesis by (auto simp: spawn_inv_def)
qed

lemma spawn_inv_closer:
  assumes "spawn_inv tickers c" "step_closer c = Some c'"
  shows "spawn_inv tickers c'"
  using assms(2)
proof (cases rule: step_closer_cases)
  case wait
  with assms(1) show ?thesis by (auto simp: spawn_inv_def split: main_pc.splits)
next
  case close
  with assms(1) show ?thesis by (auto simp: spawn_inv_def split: main_pc.splits)
qed

lemma spawn_inv_update:
  "spawn_inv tickers c \<Longrightarrow> i < length (workers c) \<Longrightarrow> workers c ! i = (s, pc) \<Longrightarrow>
   main_at c' = main_at c \<Longrightarrow> closer_at c' = closer_at c \<Longrightarrow>
   workers c' = (workers c)[i := (s, pc')] \<Longrightarrow> spawn_inv tickers c'"
  by (auto simp: spawn_inv_def nth_list_update split: main_pc.splits)

lemma spawn_inv_same:
  "spawn_inv tickers c \<Longrightarrow> main_at c' = main_at c \<Longrightarrow> closer_at c' = closer_at c \<Longrightarrow>
   workers c' = workers c \<Longrightarrow> spawn_inv tickers c'"
  by (auto simp: spawn_inv_def split: main_pc.splits)

lemma spawn_inv_worker:
  assumes "spawn_inv tickers c" "step_worker fetch tickers limit c i = Some c'"
  shows "spawn_inv tickers c'"
  using assms(2)
proof (cases rule: step_worker_cases)
  case (acquire s)
  then show ?thesis by (intro spawn_inv_update [OF assms(1) acquire(1,2)]) simp_all
next
  case (fetch s)
  then show ?thesis by (intro spawn_inv_update [OF assms(1) fetch(1,2)]) simp_all
next
  case (send_closed s r)
  then show ?thesis by (intro spawn_inv_same [OF assms(1)]) simp_all
next
  case (send s r)
  then show ?thesis by (intro spawn_inv_update [OF assms(1) send(1,2)]) simp_all
next
  case (release s)
  then show ?thesis by (intro spawn_inv_update [OF assms(1) release(1,2)]) simp_all
next
  case (wg_negative s)
  then show ?thesis by (intro spawn_inv_same [OF assms(1)]) simp_all
next
  case (wg_done s)
  then show ?thesis by (intro spawn_inv_update [OF assms(1) wg_done(1,2)]) simp_all
qed

subsection \<open>The wait group\<close>

lemma filter_pos: "i < length xs \<Longrightarrow> P (xs ! i) \<Longrightarrow> 0 < length (filter P xs)"
  by (metis filter_empty_conv length_greater_0_conv nth_mem)

lemma list_all_nth: "list_all P xs \<Longrightarrow> i < length xs \<Longrightarrow> P (xs ! i)"
  by (simp add: list_all_length)

lemma filter_none_all: "length (filter (\<lambda>w. \<not> P w) xs) = 0 \<Longrightarrow> list_all P xs"
  by (simp add: list_all_iff filter_empty_conv)

lemma wg_inv_start: "0 \<le> limit \<Longrightarrow> wg_inv (FetchPriceConcurrent_start limit)"
  by (simp add: wg_inv_def FetchPriceConcurrent_start_def)

lemma wg_inv_main:
  assumes "wg_inv c" "spawn_inv tickers c" "step_main tickers c = Some c'"
  shows "wg_inv c'"
  using assms(3)
proof (cases rule: step_main_cases)
  case (spawn i)
  with assms(2) have "closer_at c = NotStarted" by (simp add: spawn_inv_def)
  with spawn assms(1) show ?thesis by (auto simp: wg_inv_def)
next
  case (start_closer i)
  with assms(2) have "closer_at c = NotStarted" by (simp add: spawn_inv_def)
  with start_closer assms(1) show ?thesis by (auto simp: wg_inv_def)
next
  case (receive r rest)
  with assms(1) show ?thesis by (auto simp: wg_inv_def)
next
  case return
  with assms(1) show ?thesis by (auto simp: wg_inv_def)
qed

lemma wg_inv_closer:
  assumes "wg_inv c" "step_closer c = Some c'"
  shows "wg_inv c'"
  using assms(2)
proof (cases rule: step_closer_cases)
  case wait
  with assms(1) have "length (filter (\<lambda>w. \<not> exited w) (workers c)) = 0"
    by (simp add: wg_inv_def)
  then have "list_all exited (workers c)" by (rule filter_none_all)
  with wait assms(1) show ?thesis by (auto simp: wg_inv_def)
next
  case close
  with assms(1) show ?thesis by (auto simp: wg_inv_def)
qed

lemma wg_inv_not_exited:
  assumes "wg_inv c" "i < length (workers c)" "\<not> exited (workers c ! i)"
  shows "closer_at c \<noteq> Closing" "closer_at c \<noteq> Finished" "\<not> closed c" "0 < wg c"
proof -
  from assms(1) have a: "closer_at c = Closing \<or> closer_at c = Finished
      \<longrightarrow> list_all exited (workers c)"
    by (simp add: wg_inv_def)
  from a list_all_nth [OF _ assms(2)] assms(3)
  show 1: "closer_at c \<noteq> Closing" and 2: "closer_at c \<noteq> Finished" by blast+
  from assms(1) 2 show "\<not> closed c" by (simp add: wg_inv_def)
  from filter_pos [OF assms(2), of "\<lambda>w. \<not> exited w"] assms(3) assms(1)
  show "0 < wg c" by (simp add: wg_inv_def)
qed

lemma wg_inv_update:
  assumes "wg_inv c" "i < length (workers c)" "workers c ! i = (s, pc)" "pc \<noteq> Exited"
    "pc' \<noteq> Exited"
    "workers c' = (workers c)[i := (s, pc')]" "wg c' = wg c" "closer_at c' = closer_at c"
    "closed c' = closed c" "panicked c' = panicked c"
  shows "wg_inv c'"
proof -
  have n: "\<not> exited (workers c ! i)" using assms(3,4) by (cases pc) simp_all
  have n': "\<not> exited (s, pc')" using assms(5) by (cases pc') simp_all
  note ne = wg_inv_not_exited [OF assms(1,2) n]
  from filter_update_count [OF assms(2), of "\<lambda>w. \<not> exited w" "(s, pc')"] n n'
  have "length (filter (\<lambda>w. \<not> exited w) (workers c'))
      = length (filter (\<lambda>w. \<not> exited w) (workers c))"
    by (simp add: assms(6))
  with assms(1) ne show ?thesis
    by (simp add: wg_inv_def assms(7,8,9,10))
qed

lemma wg_inv_worker:
  assumes "wg_inv c" "step_worker fetch tickers limit c i = Some c'"
  shows "wg_inv c'"
  using assms(2)
proof (cases rule: step_worker_cases)
  case (acquire s)
  then show ?thesis by (intro wg_inv_update [OF assms(1) acquire(1,2)]) simp_all
next
  case (fetch s)
  then show ?thesis by (intro wg_inv_update [OF assms(1) fetch(1,2)]) simp_all
next
  case (send_closed s r)
  then have "\<not> exited (workers c ! i)" by simp
  from wg_inv_not_exited(3) [OF assms(1) send_closed(1) this] send_closed(3)
  show ?thesis by simp
next
  case (send s r)
  then show ?thesis by (intro wg_inv_update [OF assms(1) send(1,2)]) simp_all
next
  case (release s)
  then show ?thesis by (intro wg_inv_update [OF assms(1) release(1,2)]) simp_all
next
  case (wg_negative s)
  then have "\<not> exited (workers c ! i)" by simp
  from wg_inv_not_exited(4) [OF assms(1) wg_negative(1) this] wg_negative(3)
  show ?thesis by simp
next
  case (wg_done s)
  then have n: "\<not> exited (workers c ! i)" by simp
  note ne = wg_inv_not_exited [OF assms(1) wg_done(1) n]
  from filter_update_count [OF wg_done(1), of "\<lambda>w. \<not> exited w" "(s, Exited)"] n
  have "length (filter (\<lambda>w. \<not> exited w) (workers c'))  + 1
      = length (filter (\<lambda>w. \<not> exited w) (workers c))"
    by (simp add: wg_done(4))
  with assms(1) ne wg_done show ?thesis
    by (auto simp: wg_inv_def)
qed


subsection \<open>The results\<close>

lemma res_inv_start: "res_inv fetch tickers (FetchPriceConcurrent_start limit)"
  by (simp add: res_inv_def FetchPriceConcurrent_start_def)

lemma worker_result_Symbol: "Symbol (worker_result fetch tickers i) = tickers ! i"
  by (simp add: worker_result_def)

lemma res_inv_main:
  assumes "res_inv fetch tickers c" "step_main tickers c = Some c'"
  shows "res_inv fetch tickers c'"
  using assms(2)
proof (cases rule: step_main_cases)
  case (spawn i)
  have w: "workers c' = workers c @ [(tickers ! i, AtAcquire)]" "results c' = results c"
    "priceMap c' = priceMap c"
    using spawn(3) by simp_all
  from assms(1) show ?thesis
    unfolding res_inv_def w
    by (auto simp: nth_append less_Suc_eq)
next
  case (start_closer i)
  with assms(1) show ?thesis by (simp add: res_inv_def)
next
  case (receive r rest)
  have w: "workers c' = workers c" "results c' = rest"
    "priceMap c' = (priceMap c)(Symbol r \<mapsto> r)"
    using receive(3) by simp_all
  from assms(1) have
    1: "length (results c) \<le> length (filter past_send (workers c))"
    and 2: "\<forall>r \<in> set (results c). \<exists>i. i < length tickers \<and> r = worker_result fetch tickers i"
    and 3: "\<forall>s r. priceMap c s = Some r \<longrightarrow>
            Symbol r = s \<and> (\<exists>i. i < length tickers \<and> r = worker_result fetch tickers i)"
    and 4: "\<forall>i. i < length (workers c) \<and> past_send (workers c ! i) \<longrightarrow>
            (\<exists>r \<in> set (results c). Symbol r = tickers ! i) \<or> priceMap c (tickers ! i) \<noteq> None"
    and 5: "\<forall>i r. i < length (workers c) \<and> snd (workers c ! i) = AtSend r \<longrightarrow>
            r = worker_result fetch tickers i"
    unfolding res_inv_def by blast+
  have n1: "length rest \<le> length (filter past_send (workers c))"
    using 1 receive(2) by simp
  have n2: "\<forall>r \<in> set rest. \<exists>i. i < length tickers \<and> r = worker_result fetch tickers i"
    using 2 receive(2) by simp
  have n3: "\<forall>s x. ((priceMap c)(Symbol r \<mapsto> r)) s = Some x \<longrightarrow>
            Symbol x = s \<and> (\<exists>i. i < length tickers \<and> x = worker_result fetch tickers i)"
    using 2 3 receive(2) by (auto split: if_splits)
  have n4: "\<forall>i. i < length (workers c) \<and> past_send (workers c ! i) \<longrightarrow>
            (\<exists>x \<in> set rest. Symbol x = tickers ! i)
            \<or> ((priceMap c)(Symbol r \<mapsto> r)) (tickers ! i) \<noteq> None"
    using 4 receive(2) by auto
  from n1 n2 n3 n4 5 show ?thesis unfolding res_inv_def w by blast
next
  case return
  with assms(1) show ?thesis by (simp add: res_inv_def)
qed

lemma res_inv_closer:
  assumes "res_inv fetch tickers c" "step_closer c = Some c'"
  shows "res_inv fetch tickers c'"
  using assms(2)
proof (cases rule: step_closer_cases)
  case wait
  with assms(1) show ?thesis by (simp add: res_inv_def)
next
  case close
  with assms(1) show ?thesis by (simp add: res_inv_def)
qed

text \<open>A worker step that sends nothing and keeps the worker on its side of the send.\<close>

lemma res_inv_update:
  assumes "res_inv fetch tickers c" "i < length (workers c)" "workers c ! i = (s, pc)"
    "past_send (s, pc') = past_send (s, pc)"
    "\<forall>r. pc' = AtSend r \<longrightarrow> r = worker_result fetch tickers i"
    "workers c' = (workers c)[i := (s, pc')]" "results c' = results c"
    "priceMap c' = priceMap c"
  shows "res_inv fetch tickers c'"
proof -
  from filter_update_count [OF assms(2), of past_send "(s, pc')"] assms(3,4)
  have n: "length (filter past_send (workers c')) = length (filter past_send (workers c))"
    by (simp add: assms(6))
  from assms(1) have
    1: "length (results c) \<le> length (filter past_send (workers c))"
    and 2: "\<forall>r \<in> set (results c). \<exists>i. i < length tickers \<and> r = worker_result fetch tickers i"
    and 3: "\<forall>s r. priceMap c s = Some r \<longrightarrow>
            Symbol r = s \<and> (\<exists>i. i < length tickers \<and> r = worker_result fetch tickers i)"
    and 4: "\<forall>i. i < length (workers c) \<and> past_send (workers c ! i) \<longrightarrow>
            (\<exists>r \<in> set (results c). Symbol r = tickers ! i) \<or> priceMap c (tickers ! i) \<noteq> None"
    and 5: "\<forall>i r. i < length (workers c) \<and> snd (workers c ! i) = AtSend r \<longrightarrow>
            r = worker_result fetch tickers i"
    unfolding res_inv_def by blast+
  have n4: "(\<exists>r \<in> set (results c). Symbol r = tickers ! j) \<or> priceMap c (tickers ! j) \<noteq> None"
    if "j < length (workers c)" "past_send ((workers c)[i := (s, pc')] ! j)" for j
  proof (cases "j = i")
    case True
    with that assms(2,3,4) have "past_send (workers c ! j)" by simp
    with 4 that(1) show ?thesis by blast
  next
    case False
    with that have "past_send (workers c ! j)" by simp
    with 4 that(1) show ?thesis by blast
  qed
  have n5: "r = worker_result fetch tickers j"
    if "j < length (workers c)" "snd ((workers c)[i := (s, pc')] ! j) = AtSend r" for j r
  proof (cases "j = i")
    case True
    with that assms(2,5) show ?thesis by simp
  next
    case False
    with that 5 show ?thesis by simp
  qed
  from 1 2 3 n4 n5 n show ?thesis
    unfolding res_inv_def assms(6,7,8) by auto
qed

lemma res_inv_same:
  "res_inv fetch tickers c \<Longrightarrow> workers c' = workers c \<Longrightarrow> results c' = results c \<Longrightarrow>
   priceMap c' = priceMap c \<Longrightarrow> res_inv fetch tickers c'"
  by (simp add: res_inv_def)

lemma res_inv_worker:
  assumes "res_inv fetch tickers c" "spawn_inv tickers c"
    "step_worker fetch tickers limit c i = Some c'"
  shows "res_inv fetch tickers c'"
  using assms(3)
proof (cases rule: step_worker_cases)
  case (acquire s)
  then show ?thesis by (intro res_inv_update [OF assms(1) acquire(1,2)]) simp_all
next
  case (fetch s)
  from assms(2) fetch(1,2) have s: "s = tickers ! i"
    by (auto simp: spawn_inv_def)
  from fetch show ?thesis
    by (intro res_inv_update [OF assms(1) fetch(1,2)]) (simp_all add: worker_result_def s)
next
  case (send_closed s r)
  then show ?thesis by (intro res_inv_same [OF assms(1)]) simp_all
next
  case (send s r)
  from assms(2) send(1,2) have s: "s = tickers ! i" and it: "i < length tickers"
    by (auto simp: spawn_inv_def)
  have w: "workers c' = (workers c)[i := (s, AtRelease)]" "results c' = results c @ [r]"
    "priceMap c' = priceMap c"
    using send(5) by simp_all
  from assms(1) have
    1: "length (results c) \<le> length (filter past_send (workers c))"
    and 2: "\<forall>r \<in> set (results c). \<exists>i. i < length tickers \<and> r = worker_result fetch tickers i"
    and 3: "\<forall>s r. priceMap c s = Some r \<longrightarrow>
            Symbol r = s \<and> (\<exists>i. i < length tickers \<and> r = worker_result fetch tickers i)"
    and 4: "\<forall>i. i < length (workers c) \<and> past_send (workers c ! i) \<longrightarrow>
            (\<exists>r \<in> set (results c). Symbol r = tickers ! i) \<or> priceMap c (tickers ! i) \<noteq> None"
    and 5: "\<forall>i r. i < length (workers c) \<and> snd (workers c ! i) = AtSend r \<longrightarrow>
            r = worker_result fetch tickers i"
    unfolding res_inv_def by blast+
  from 5 send(1,2) have r: "r = worker_result fetch tickers i" by simp
  from filter_update_count [OF send(1), of past_send "(s, AtRelease)"] send(2)
  have n: "length (filter past_send ((workers c)[i := (s, AtRelease)]))
      = Suc (length (filter past_send (workers c)))"
    by simp
  have n1: "length (results c @ [r]) \<le> length (filter past_send ((workers c)[i := (s, AtRelease)]))"
    using 1 n by simp
  have n2: "\<forall>x \<in> set (results c @ [r]).
      \<exists>i. i < length tickers \<and> x = worker_result fetch tickers i"
    using 2 r it by auto
  have n4: "(\<exists>x \<in> set (results c @ [r]). Symbol x = tickers ! j)
      \<or> priceMap c (tickers ! j) \<noteq> None"
    if "j < length (workers c)" "past_send ((workers c)[i := (s, AtRelease)] ! j)" for j
  proof (cases "j = i")
    case True
    then show ?thesis using r by (simp add: worker_result_Symbol)
  next
    case False
    with that have "past_send (workers c ! j)" by simp
    with 4 that(1) show ?thesis by auto
  qed
  have n5: "x = worker_result fetch tickers j"
    if "j < length (workers c)" "snd ((workers c)[i := (s, AtRelease)] ! j) = AtSend x" for j x
  proof (cases "j = i")
    case True
    with that send(1) show ?thesis by simp
  next
    case False
    with that 5 show ?thesis by simp
  qed
  from n1 n2 3 n4 n5 show ?thesis
    unfolding res_inv_def w by auto
next
  case (release s)
  then show ?thesis by (intro res_inv_update [OF assms(1) release(1,2)]) simp_all
next
  case (wg_negative s)
  then show ?thesis by (intro res_inv_same [OF assms(1)]) simp_all
next
  case (wg_done s)
  then show ?thesis by (intro res_inv_update [OF assms(1) wg_done(1,2)]) simp_all
qed

subsection \<open>The return\<close>

lemma ret_inv_start: "ret_inv (FetchPriceConcurrent_start limit)"
  by (simp add: ret_inv_def FetchPriceConcurrent_start_def)

lemma ret_inv_main:
  assumes "ret_inv c" "step_main tickers c = Some c'"
  shows "ret_inv c'"
  using assms(2)
proof (cases rule: step_main_cases)
  case (spawn i)
  with assms(1) show ?thesis by (auto simp: ret_inv_def split: option.splits)
next
  case (start_closer i)
  with assms(1) show ?thesis by (auto simp: ret_inv_def split: option.splits)
next
  case (receive r rest)
  with assms(1) show ?thesis by (auto simp: ret_inv_def split: option.splits)
next
  case return
  with assms(1) show ?thesis by (auto simp: ret_inv_def split: option.splits)
qed

lemma ret_inv_closer:
  assumes "ret_inv c" "step_closer c = Some c'"
  shows "ret_inv c'"
  using assms(2)
proof (cases rule: step_closer_cases)
  case wait
  with assms(1) show ?thesis by (auto simp: ret_inv_def split: option.splits)
next
  case close
  with assms(1) show ?thesis by (auto simp: ret_inv_def split: option.splits)
qed

lemma ret_inv_worker:
  assumes "ret_inv c" "wg_inv c" "step_worker fetch tickers limit c i = Some c'"
  shows "ret_inv c'"
proof -
  from assms(3) have i: "i < length (workers c)" and n: "\<not> exited (workers c ! i)"
    by (cases rule: step_worker_cases; simp)+
  from wg_inv_not_exited(3) [OF assms(2) i n] have o: "\<not> closed c" .
  with assms(1) have r: "returned c = None" "main_at c \<noteq> Returned"
    by (auto simp: ret_inv_def split: option.splits)
  from assms(3) have "returned c' = returned c \<and> main_at c' = main_at c"
    by (cases rule: step_worker_cases) simp_all
  with r show ?thesis by (simp add: ret_inv_def)
qed

subsection \<open>All invariants along a schedule\<close>

lemma fpc_inv_start: "0 \<le> limit \<Longrightarrow> fpc_inv fetch tickers limit (FetchPriceConcurrent_start limit)"
  by (simp add: fpc_inv_def sem_inv_start spawn_inv_start wg_inv_start res_inv_start
      ret_inv_start)

lemma fpc_inv_step:
  assumes "fpc_inv fetch tickers limit c" "step fetch tickers limit c a = Some c'"
  shows "fpc_inv fetch tickers limit c'"
proof (cases a)
  case Main
  with assms(2) have s: "step_main tickers c = Some c'"
    by (simp add: step_def split: if_splits)
  from assms(1) show ?thesis
    unfolding fpc_inv_def
    using sem_inv_main [OF _ s] spawn_inv_main [OF _ s] wg_inv_main [OF _ _ s]
      res_inv_main [OF _ s] ret_inv_main [OF _ s]
    by blast
next
  case Closer
  with assms(2) have s: "step_closer c = Some c'"
    by (simp add: step_def split: if_splits)
  from assms(1) show ?thesis
    unfolding fpc_inv_def
    using sem_inv_closer [OF _ s] spawn_inv_closer [OF _ s] wg_inv_closer [OF _ s]
      res_inv_closer [OF _ s] ret_inv_closer [OF _ s]
    by blast
next
  case (Worker i)
  with assms(2) have s: "step_worker fetch tickers limit c i = Some c'"
    by (simp add: step_def split: if_splits)
  from assms(1) show ?thesis
    unfolding fpc_inv_def
    using sem_inv_worker [OF _ s] spawn_inv_worker [OF _ s] wg_inv_worker [OF _ s]
      res_inv_worker [OF _ _ s] ret_inv_worker [OF _ _ s]
    by blast
qed

lemma fpc_inv_run:
  "fpc_inv fetch tickers limit c \<Longrightarrow> run fetch tickers limit c sched = Some c' \<Longrightarrow>
     fpc_inv fetch tickers limit c'"
proof (induction sched arbitrary: c)
  case Nil
  then show ?case by simp
next
  case (Cons a sched)
  from Cons.prems(2) obtain c1 where s: "step fetch tickers limit c a = Some c1"
    and r: "run fetch tickers limit c1 sched = Some c'"
    by (auto split: option.splits)
  from Cons.IH [OF fpc_inv_step [OF Cons.prems(1) s] r] show ?case .
qed


subsection \<open>Every step is one of a bounded number\<close>

lemma sum_list_map_update:
  fixes f :: "'a \<Rightarrow> nat"
  assumes "i < length xs"
  shows "sum_list (map f (xs[i := y])) + f (xs ! i) = sum_list (map f xs) + f y"
  using assms
proof (induction xs arbitrary: i)
  case Nil
  then show ?case by simp
next
  case (Cons x xs)
  then show ?case by (cases i) (simp_all add: add.assoc add.left_commute)
qed

lemma filter_less_nth:
  "i < length xs \<Longrightarrow> \<not> P (xs ! i) \<Longrightarrow> length (filter P xs) < length xs"
  by (rule length_filter_less [of "xs ! i"]) simp_all

lemma steps_left_update:
  assumes "i < length (workers c)" "workers c ! i = (s, pc)"
    "Suc (worker_steps (s, pc')) = worker_steps (s, pc)"
    "past_send (s, pc') = past_send (s, pc)"
    "workers c' = (workers c)[i := (s, pc')]" "results c' = results c"
    "closer_at c' = closer_at c" "main_at c' = main_at c"
  shows "Suc (steps_left tickers c') = steps_left tickers c"
proof -
  from filter_update_count [OF assms(1), of past_send "(s, pc')"] assms(2,4)
  have n: "length (filter past_send (workers c')) = length (filter past_send (workers c))"
    by (simp add: assms(5))
  from sum_list_map_update [OF assms(1), of worker_steps "(s, pc')"] assms(2,3)
  have "Suc (sum_list (map worker_steps (workers c'))) = sum_list (map worker_steps (workers c))"
    by (simp add: assms(5))
  with n show ?thesis
    unfolding steps_left_def assms(6,7,8) by (simp add: assms(5))
qed

lemma steps_left_start: "steps_left tickers (FetchPriceConcurrent_start limit) = 7 * length tickers + 4"
  by (simp add: steps_left_def FetchPriceConcurrent_start_def)

lemma steps_left_main:
  assumes "spawn_inv tickers c" "step_main tickers c = Some c'"
  shows "Suc (steps_left tickers c') = steps_left tickers c"
  using assms(2)
proof (cases rule: step_main_cases)
  case (spawn i)
  from assms(1) spawn(1) have l: "length (workers c) = i" by (simp add: spawn_inv_def)
  from spawn(2) l obtain k where k: "length tickers - length (workers c) = Suc k"
    "length tickers - Suc (length (workers c)) = k"
    by (cases "length tickers - length (workers c)") auto
  from spawn(1,3) show ?thesis
    unfolding steps_left_def by (simp add: k)
next
  case (start_closer i)
  from assms(1) start_closer(1) have "closer_at c = NotStarted" by (simp add: spawn_inv_def)
  with start_closer show ?thesis unfolding steps_left_def by simp
next
  case (receive r rest)
  then show ?thesis unfolding steps_left_def by simp
next
  case return
  then show ?thesis unfolding steps_left_def by simp
qed

lemma steps_left_closer:
  assumes "step_closer c = Some c'"
  shows "Suc (steps_left tickers c') = steps_left tickers c"
  using assms
proof (cases rule: step_closer_cases)
  case wait
  then show ?thesis unfolding steps_left_def by simp
next
  case close
  then show ?thesis unfolding steps_left_def by simp
qed

lemma steps_left_worker:
  assumes "spawn_inv tickers c" "wg_inv c" "step_worker fetch tickers limit c i = Some c'"
  shows "Suc (steps_left tickers c') = steps_left tickers c"
  using assms(3)
proof (cases rule: step_worker_cases)
  case (acquire s)
  then show ?thesis by (intro steps_left_update [OF acquire(1,2)]) simp_all
next
  case (fetch s)
  then show ?thesis by (intro steps_left_update [OF fetch(1,2)]) simp_all
next
  case (send_closed s r)
  from wg_inv_not_exited(3) [OF assms(2) send_closed(1)] send_closed(2,3)
  show ?thesis by simp
next
  case (send s r)
  from filter_update_count [OF send(1), of past_send "(s, AtRelease)"] send(2)
  have n: "length (filter past_send ((workers c)[i := (s, AtRelease)]))
      = Suc (length (filter past_send (workers c)))"
    by simp
  from filter_less_nth [OF send(1), of past_send] send(2)
  have "length (filter past_send (workers c)) < length (workers c)" by simp
  moreover from assms(1) have "length (workers c) \<le> length tickers" by (simp add: spawn_inv_def)
  ultimately obtain k where k: "length tickers - length (filter past_send (workers c)) = Suc k"
    "length tickers - Suc (length (filter past_send (workers c))) = k"
    by (cases "length tickers - length (filter past_send (workers c))") auto
  from sum_list_map_update [OF send(1), of worker_steps "(s, AtRelease)"] send(2)
  have "Suc (sum_list (map worker_steps ((workers c)[i := (s, AtRelease)])))
      = sum_list (map worker_steps (workers c))"
    by simp
  then show ?thesis
    unfolding steps_left_def send(5) by (simp add: n k)
next
  case (release s)
  then show ?thesis by (intro steps_left_update [OF release(1,2)]) simp_all
next
  case (wg_negative s)
  from wg_inv_not_exited(4) [OF assms(2) wg_negative(1)] wg_negative(2,3)
  show ?thesis by simp
next
  case (wg_done s)
  then show ?thesis by (intro steps_left_update [OF wg_done(1,2)]) simp_all
qed

lemma steps_left_step:
  assumes "fpc_inv fetch tickers limit c" "step fetch tickers limit c a = Some c'"
  shows "Suc (steps_left tickers c') = steps_left tickers c"
proof (cases a)
  case Main
  with assms(2) have s: "step_main tickers c = Some c'"
    by (simp add: step_def split: if_splits)
  from assms(1) steps_left_main [OF _ s] show ?thesis by (simp add: fpc_inv_def)
next
  case Closer
  with assms(2) have s: "step_closer c = Some c'"
    by (simp add: step_def split: if_splits)
  from steps_left_closer [OF s] show ?thesis .
next
  case (Worker i)
  with assms(2) have s: "step_worker fetch tickers limit c i = Some c'"
    by (simp add: step_def split: if_splits)
  from assms(1) steps_left_worker [OF _ _ s] show ?thesis by (simp add: fpc_inv_def)
qed

lemma steps_left_run:
  "fpc_inv fetch tickers limit c \<Longrightarrow> run fetch tickers limit c sched = Some c' \<Longrightarrow>
     length sched + steps_left tickers c' = steps_left tickers c"
proof (induction sched arbitrary: c)
  case Nil
  then show ?case by simp
next
  case (Cons a sched)
  from Cons.prems(2) obtain c1 where s: "step fetch tickers limit c a = Some c1"
    and r: "run fetch tickers limit c1 sched = Some c'"
    by (auto split: option.splits)
  from Cons.IH [OF fpc_inv_step [OF Cons.prems(1) s] r] steps_left_step [OF Cons.prems(1) s]
  show ?case by simp
qed


subsection \<open>Some goroutine can always move\<close>

lemma filter_pos_nth:
  "0 < length (filter P xs) \<Longrightarrow> \<exists>i. i < length xs \<and> P (xs ! i)"
  by (metis filter_False in_set_conv_nth length_greater_0_conv)

lemma holding_enabled:
  assumes "fpc_inv fetch tickers limit c" "i < length (workers c)" "holding (workers c ! i)"
    "results c = []"
  shows "\<exists>c'. step_worker fetch tickers limit c i = Some c'"
proof -
  obtain s pc where w: "workers c ! i = (s, pc)" by (cases "workers c ! i")
  from assms(1) have sm: "sem c = length (filter holding (workers c))"
    and sp: "length (workers c) \<le> length tickers"
    by (simp_all add: fpc_inv_def sem_inv_def spawn_inv_def)
  from assms(2,3) have "workers c ! i \<in> set (filter holding (workers c))" by simp
  then have "0 < length (filter holding (workers c))" by (metis length_pos_if_in_set)
  with sm have s0: "0 < sem c" by simp
  from assms(2) sp have t0: "0 < length tickers" by (cases tickers) simp_all
  from assms(2,3,4) w s0 t0 show ?thesis
    by (cases pc) (simp_all add: step_worker_def Let_def)
qed

lemma worker_enabled:
  assumes "fpc_inv fetch tickers limit c" "1 \<le> limit" "i < length (workers c)"
    "\<not> exited (workers c ! i)" "results c = []"
  shows "\<exists>j c'. step_worker fetch tickers limit c j = Some c'"
proof -
  obtain s pc where w: "workers c ! i = (s, pc)" by (cases "workers c ! i")
  show ?thesis
  proof (cases "holding (workers c ! i)")
    case True
    from holding_enabled [OF assms(1,3) True assms(5)] show ?thesis by blast
  next
    case False
    with w assms(4) have "pc = AtAcquire \<or> pc = AtDone" by (cases pc) simp_all
    then show ?thesis
    proof
      assume d: "pc = AtDone"
      with w assms(3) have "\<exists>c'. step_worker fetch tickers limit c i = Some c'"
        by (simp add: step_worker_def Let_def)
      then show ?thesis by blast
    next
      assume a: "pc = AtAcquire"
      show ?thesis
      proof (cases "int (sem c) < limit")
        case True
        with a w assms(3) have "\<exists>c'. step_worker fetch tickers limit c i = Some c'"
          by (simp add: step_worker_def Let_def)
        then show ?thesis by blast
      next
        case False
        with assms(2) have "0 < sem c" by simp
        moreover from assms(1) have "sem c = length (filter holding (workers c))"
          by (simp add: fpc_inv_def sem_inv_def)
        ultimately have "0 < length (filter holding (workers c))" by simp
        from filter_pos_nth [OF this] obtain j where "j < length (workers c)"
          "holding (workers c ! j)" by blast
        from holding_enabled [OF assms(1) this assms(5)] show ?thesis by blast
      qed
    qed
  qed
qed

lemma some_step:
  assumes "fpc_inv fetch tickers limit c" "1 \<le> limit" "returned c = None"
  shows "\<exists>a c'. step fetch tickers limit c a = Some c'"
proof -
  from assms(1) have np: "\<not> panicked c" by (simp add: fpc_inv_def wg_inv_def)
  from assms(1,3) have nr: "main_at c \<noteq> Returned"
    by (simp add: fpc_inv_def ret_inv_def)
  have m: "\<exists>a c'. step fetch tickers limit c a = Some c'" if "step_main tickers c = Some x" for x
    using that np by (intro exI [of _ Main]) (simp add: step_def)
  have k: "\<exists>a c'. step fetch tickers limit c a = Some c'" if "step_closer c = Some x" for x
    using that np by (intro exI [of _ Closer]) (simp add: step_def)
  have w: "\<exists>a c'. step fetch tickers limit c a = Some c'"
    if "step_worker fetch tickers limit c j = Some x" for x j
    using that np by (intro exI [of _ "Worker j"]) (simp add: step_def)
  show ?thesis
  proof (cases "main_at c")
    case (Spawning i)
    then have "\<exists>x. step_main tickers c = Some x" by (simp add: step_main_def)
    with m show ?thesis by blast
  next
    case Returned
    with nr show ?thesis by simp
  next
    case Ranging
    show ?thesis
    proof (cases "results c = [] \<and> \<not> closed c")
      case False
      with Ranging have "\<exists>x. step_main tickers c = Some x"
        by (cases "results c") (simp_all add: step_main_def)
      with m show ?thesis by blast
    next
      case True
      from assms(1) Ranging have ns: "closer_at c \<noteq> NotStarted"
        by (simp add: fpc_inv_def spawn_inv_def)
      from assms(1) True have nf: "closer_at c \<noteq> Finished"
        by (simp add: fpc_inv_def wg_inv_def)
      show ?thesis
      proof (cases "closer_at c = Closing \<or> wg c = 0")
        case True
        with ns nf have "\<exists>x. step_closer c = Some x"
          by (cases "closer_at c") (simp_all add: step_closer_def)
        with k show ?thesis by blast
      next
        case False
        from assms(1) have "wg c = int (length (filter (\<lambda>w. \<not> exited w) (workers c)))"
          by (simp add: fpc_inv_def wg_inv_def)
        with False have "0 < length (filter (\<lambda>w. \<not> exited w) (workers c))" by simp
        from filter_pos_nth [OF this] obtain i where "i < length (workers c)"
          "\<not> exited (workers c ! i)" by blast
        from worker_enabled [OF assms(1,2) this] True w show ?thesis by blast
      qed
    qed
  qed
qed

subsection \<open>Some schedule runs to the return\<close>

lemma run_append:
  "run fetch tickers limit c (s1 @ s2)
     = (case run fetch tickers limit c s1 of
          None \<Rightarrow> None
        | Some c1 \<Rightarrow> run fetch tickers limit c1 s2)"
  by (induction s1 arbitrary: c) (simp_all split: option.splits)

lemma run_to_return:
  "fpc_inv fetch tickers limit c \<Longrightarrow> 1 \<le> limit \<Longrightarrow> steps_left tickers c = n \<Longrightarrow>
     \<exists>sched c'. run fetch tickers limit c sched = Some c' \<and> returned c' \<noteq> None"
proof (induction n arbitrary: c rule: less_induct)
  case (less n)
  show ?case
  proof (cases "returned c")
    case (Some x)
    then have "run fetch tickers limit c [] = Some c \<and> returned c \<noteq> None" by simp
    then show ?thesis by blast
  next
    case None
    from some_step [OF less.prems(1,2) None] obtain a c1
      where s: "step fetch tickers limit c a = Some c1" by blast
    from steps_left_step [OF less.prems(1) s] less.prems(3)
    have "steps_left tickers c1 < n" by simp
    from less.IH [OF this fpc_inv_step [OF less.prems(1) s] less.prems(2) refl]
    obtain sched c' where "run fetch tickers limit c1 sched = Some c'" "returned c' \<noteq> None"
      by blast
    with s have "run fetch tickers limit c (a # sched) = Some c' \<and> returned c' \<noteq> None"
      by simp
    then show ?thesis by blast
  qed
qed

subsection \<open>What the call returns\<close>

lemma returned_map:
  assumes "fpc_inv fetch tickers limit c" "returned c = Some (m, e)"
  shows "e = None" "dom m = set tickers"
    "\<forall>s r. m s = Some r \<longrightarrow>
       (\<exists>i. i < length tickers \<and> tickers ! i = s \<and> r = worker_result fetch tickers i)"
proof -
  from assms have r: "main_at c = Returned" "e = None" "m = priceMap c" "results c = []"
    "closed c"
    by (simp_all add: fpc_inv_def ret_inv_def)
  show "e = None" by (rule r(2))
  from assms(1) r(1) have l: "length (workers c) = length tickers"
    by (simp add: fpc_inv_def spawn_inv_def)
  from assms(1) r(5) have "list_all exited (workers c)"
    by (simp add: fpc_inv_def wg_inv_def)
  then have ex: "exited (workers c ! i)" if "i < length tickers" for i
    using that l by (simp add: list_all_length)
  have ps: "past_send w" if "exited w" for w
    using that by (cases w rule: exited.cases) simp_all
  from assms(1) have
    3: "\<forall>s r. priceMap c s = Some r \<longrightarrow>
            Symbol r = s \<and> (\<exists>i. i < length tickers \<and> r = worker_result fetch tickers i)"
    and 4: "\<forall>i. i < length (workers c) \<and> past_send (workers c ! i) \<longrightarrow>
            (\<exists>r \<in> set (results c). Symbol r = tickers ! i) \<or> priceMap c (tickers ! i) \<noteq> None"
    unfolding fpc_inv_def res_inv_def by blast+
  from 4 l r(4) ex ps have a: "priceMap c (tickers ! i) \<noteq> None" if "i < length tickers" for i
    using that by simp
  from 3 show b: "\<forall>s r. m s = Some r \<longrightarrow>
       (\<exists>i. i < length tickers \<and> tickers ! i = s \<and> r = worker_result fetch tickers i)"
    unfolding r(3) by (metis worker_result_Symbol)
  show "dom m = set tickers"
  proof
    show "dom m \<subseteq> set tickers" using b by (fastforce simp: dom_def in_set_conv_nth)
    show "set tickers \<subseteq> dom m" using a unfolding r(3) by (auto simp: in_set_conv_nth)
  qed
qed


subsection \<open>Without a slot the call does not return\<close>

lemma waiting_step:
  assumes "limit \<le> 0" "list_all (\<lambda>w. snd w = AtAcquire) (workers c)"
    "step fetch tickers limit c a = Some c'"
  shows "list_all (\<lambda>w. snd w = AtAcquire) (workers c')"
proof (cases a)
  case Main
  with assms(3) have "step_main tickers c = Some c'"
    by (simp add: step_def split: if_splits)
  then show ?thesis using assms(2) by (cases rule: step_main_cases) simp_all
next
  case Closer
  with assms(3) have "step_closer c = Some c'"
    by (simp add: step_def split: if_splits)
  then show ?thesis using assms(2) by (cases rule: step_closer_cases) simp_all
next
  case (Worker i)
  with assms(3) have s: "step_worker fetch tickers limit c i = Some c'"
    by (simp add: step_def split: if_splits)
  then have i: "i < length (workers c)" by (cases rule: step_worker_cases) simp_all
  with assms(2) have "snd (workers c ! i) = AtAcquire" by (simp add: list_all_length)
  with s i assms(1) show ?thesis by (simp add: step_worker_def Let_def)
qed

lemma waiting_run:
  "limit \<le> 0 \<Longrightarrow> list_all (\<lambda>w. snd w = AtAcquire) (workers c) \<Longrightarrow>
     run fetch tickers limit c sched = Some c' \<Longrightarrow>
     list_all (\<lambda>w. snd w = AtAcquire) (workers c')"
proof (induction sched arbitrary: c)
  case Nil
  then show ?case by simp
next
  case (Cons a sched)
  from Cons.prems(3) obtain c1 where s: "step fetch tickers limit c a = Some c1"
    and r: "run fetch tickers limit c1 sched = Some c'"
    by (auto split: option.splits)
  from Cons.IH [OF Cons.prems(1) waiting_step [OF Cons.prems(1,2) s] r] show ?case .
qed

lemma fpc_inv_reached:
  assumes "0 \<le> limit" "FetchPriceConcurrent fetch tickers limit sched = Some c"
  shows "fpc_inv fetch tickers limit c"
  using fpc_inv_run [OF fpc_inv_start [OF assms(1)]] assms(2)
  by (simp add: FetchPriceConcurrent_def)

lemma negative_limit_no_return:
  assumes "limit < 0" "FetchPriceConcurrent fetch tickers limit sched = Some c"
  shows "returned c = None"
proof -
  from assms(1) have p: "panicked (FetchPriceConcurrent_start limit)"
    by (simp add: FetchPriceConcurrent_start_def)
  from assms(2) have "run fetch tickers limit (FetchPriceConcurrent_start limit) sched = Some c"
    by (simp add: FetchPriceConcurrent_def)
  from run_panicked [OF p this] have "c = FetchPriceConcurrent_start limit" .
  then show ?thesis by (simp add: FetchPriceConcurrent_start_def)
qed

lemma no_slot_no_return:
  assumes "limit \<le> 0" "tickers \<noteq> []"
    "FetchPriceConcurrent fetch tickers limit sched = Some c"
  shows "returned c = None"
proof (cases "limit < 0")
  case True
  from negative_limit_no_return [OF True assms(3)] show ?thesis .
next
  case False
  then have l: "0 \<le> limit" by simp
  from assms(3) have r: "run fetch tickers limit (FetchPriceConcurrent_start limit) sched = Some c"
    by (simp add: FetchPriceConcurrent_def)
  have "list_all (\<lambda>w. snd w = AtAcquire) (workers (FetchPriceConcurrent_start limit))"
    by (simp add: FetchPriceConcurrent_start_def)
  from waiting_run [OF assms(1) this r]
  have a: "list_all (\<lambda>w. snd w = AtAcquire) (workers c)" .
  note inv = fpc_inv_reached [OF l assms(3)]
  show ?thesis
  proof (rule ccontr)
    assume "returned c \<noteq> None"
    then obtain m e where "returned c = Some (m, e)" by auto
    with inv have "main_at c = Returned" "closed c"
      by (simp_all add: fpc_inv_def ret_inv_def)
    with inv have n: "length (workers c) = length tickers" and x: "list_all exited (workers c)"
      by (simp_all add: fpc_inv_def spawn_inv_def wg_inv_def)
    from n assms(2) have 0: "0 < length (workers c)" by simp
    with a x have "snd (workers c ! 0) = AtAcquire" "exited (workers c ! 0)"
      by (simp_all add: list_all_length)
    then show False by (cases "workers c ! 0") simp
  qed
qed

subsection \<open>Calls with no ticker and with one ticker\<close>

lemma no_ticker_eval:
  "FetchPriceConcurrent fetch_106 [] 5 sched_no_ticker =
     Some \<lparr>workers = [], sem = 0, results = [], closed = True, wg = 0, main_at = Returned,
           closer_at = Finished, priceMap = Map.empty, returned = Some (Map.empty, None),
           panicked = False\<rparr>"
  by (simp add: conc_eval sched_no_ticker_def)

lemma one_ticker_eval:
  "map_option returned (FetchPriceConcurrent fetch_fails [''AAPL''] 5 sched_one_ticker) =
     Some (Some ([''AAPL'' \<mapsto> \<lparr>Symbol = ''AAPL'', Price = '''',
                    Error = Some (WrapV ErrPriceFetchFailed DeadlineExceeded)\<rparr>], None))"
  by (simp add: conc_eval sched_one_ticker_def fetch_fails_def)

text \<open>
  Claim C4 as stated fails: called with no ticker, \<^verbatim>\<open>FetchPriceConcurrent\<close> returns the
  empty map and a nil error, not an error.
\<close>

theorem FetchPriceConcurrent_empty_counterexample:
  "map_option returned (FetchPriceConcurrent fetch_106 [] 5 sched_no_ticker)
     = Some (Some (Map.empty, None))"
  by (simp add: no_ticker_eval)

text \<open>
  Claim C4, amended. Whatever the tickers, the limit and the schedule of the goroutines,
  when \<^verbatim>\<open>FetchPriceConcurrent\<close> returns, it returns a nil error and a map whose keys are
  exactly the tickers (none for an empty list), each with the result its worker built
  from what \<^verbatim>\<open>FetchPrice\<close> gave it, a failure included: it never returns an error. With a
  limit of at least 1 it does return: a schedule has at most \<open>7 * length tickers + 4\<close>
  steps, before the return some goroutine can always move, and every schedule extends
  to one that ends with the return.
\<close>

theorem FetchPriceConcurrent_returns_map_nil:
  "(\<forall>sched c m e.
      FetchPriceConcurrent fetch tickers limit sched = Some c \<and> returned c = Some (m, e) \<longrightarrow>
        e = None \<and> dom m = set tickers
        \<and> (\<forall>s r. m s = Some r \<longrightarrow>
             (\<exists>i. i < length tickers \<and> tickers ! i = s \<and> r = worker_result fetch tickers i)))
   \<and> (1 \<le> limit \<longrightarrow>
        (\<forall>sched c. FetchPriceConcurrent fetch tickers limit sched = Some c \<longrightarrow>
           length sched \<le> 7 * length tickers + 4
           \<and> (returned c = None \<longrightarrow> (\<exists>a c'. step fetch tickers limit c a = Some c'))
           \<and> (\<exists>sched' c'. FetchPriceConcurrent fetch tickers limit (sched @ sched') = Some c'
                 \<and> returned c' \<noteq> None)))"
proof (intro conjI allI impI)
  fix sched c m e
  assume a: "FetchPriceConcurrent fetch tickers limit sched = Some c \<and> returned c = Some (m, e)"
  have l: "0 \<le> limit"
  proof (rule ccontr)
    assume "\<not> 0 \<le> limit"
    then have "limit < 0" by simp
    from negative_limit_no_return [OF this] a show False by auto
  qed
  from a have "FetchPriceConcurrent fetch tickers limit sched = Some c" by simp
  note inv = fpc_inv_reached [OF l this]
  from a have r: "returned c = Some (m, e)" by simp
  show "e = None" by (rule returned_map(1) [OF inv r])
  show "dom m = set tickers" by (rule returned_map(2) [OF inv r])
  fix s x
  assume "m s = Some x"
  with returned_map(3) [OF inv r]
  show "\<exists>i. i < length tickers \<and> tickers ! i = s \<and> x = worker_result fetch tickers i"
    by blast
next
  fix sched c
  assume l: "1 \<le> limit" and a: "FetchPriceConcurrent fetch tickers limit sched = Some c"
  from l have l0: "0 \<le> limit" by simp
  note inv = fpc_inv_reached [OF l0 a]
  from a have r: "run fetch tickers limit (FetchPriceConcurrent_start limit) sched = Some c"
    by (simp add: FetchPriceConcurrent_def)
  from steps_left_run [OF fpc_inv_start [OF l0] r]
  show "length sched \<le> 7 * length tickers + 4"
    by (simp add: steps_left_start)
  show "\<exists>a c'. step fetch tickers limit c a = Some c'" if "returned c = None"
    by (rule some_step [OF inv l that])
  from run_to_return [OF inv l refl] obtain sched' c'
    where "run fetch tickers limit c sched' = Some c'" "returned c' \<noteq> None" by blast
  with r have "FetchPriceConcurrent fetch tickers limit (sched @ sched') = Some c'
      \<and> returned c' \<noteq> None"
    by (simp add: FetchPriceConcurrent_def run_append)
  then show "\<exists>sched' c'. FetchPriceConcurrent fetch tickers limit (sched @ sched') = Some c'
      \<and> returned c' \<noteq> None"
    by blast
qed

theorem FetchPriceConcurrent_returns_map_nil_witness:
  "(\<exists>c m. FetchPriceConcurrent fetch_fails [''AAPL''] 5 sched_one_ticker = Some c
      \<and> returned c = Some (m, None) \<and> dom m = {''AAPL''}
      \<and> m ''AAPL'' = Some (worker_result fetch_fails [''AAPL''] 0)
      \<and> Error (worker_result fetch_fails [''AAPL''] 0)
          = Some (WrapV ErrPriceFetchFailed DeadlineExceeded))
   \<and> length sched_one_ticker \<le> 7 * length [''AAPL''] + 4"
proof -
  note T = FetchPriceConcurrent_returns_map_nil [of fetch_fails "[''AAPL'']" 5]
  from one_ticker_eval obtain c m e
    where c: "FetchPriceConcurrent fetch_fails [''AAPL''] 5 sched_one_ticker = Some c"
      and r: "returned c = Some (m, e)"
    by auto
  from T have "FetchPriceConcurrent fetch_fails [''AAPL''] 5 sched_one_ticker = Some c
      \<and> returned c = Some (m, e) \<longrightarrow>
        e = None \<and> dom m = set [''AAPL'']
        \<and> (\<forall>s r. m s = Some r \<longrightarrow>
             (\<exists>i. i < length [''AAPL''] \<and> [''AAPL''] ! i = s
                \<and> r = worker_result fetch_fails [''AAPL''] i))"
    by blast
  with c r have e: "e = None" and d: "dom m = set [''AAPL'']"
    and x: "\<forall>s r. m s = Some r \<longrightarrow>
       (\<exists>i. i < length [''AAPL''] \<and> [''AAPL''] ! i = s
          \<and> r = worker_result fetch_fails [''AAPL''] i)"
    by blast+
  from d have "''AAPL'' \<in> dom m" by simp
  then obtain y where y: "m ''AAPL'' = Some y" by blast
  with x have "\<exists>i. i < length [''AAPL''] \<and> y = worker_result fetch_fails [''AAPL''] i"
    by blast
  then have "y = worker_result fetch_fails [''AAPL''] 0" by simp
  with y have 1: "m ''AAPL'' = Some (worker_result fetch_fails [''AAPL''] 0)" by simp
  have 2: "Error (worker_result fetch_fails [''AAPL''] 0)
      = Some (WrapV ErrPriceFetchFailed DeadlineExceeded)"
    by (simp add: worker_result_def fetch_fails_def)
  from T have "FetchPriceConcurrent fetch_fails [''AAPL''] 5 sched_one_ticker = Some c
      \<longrightarrow> length sched_one_ticker \<le> 7 * length [''AAPL''] + 4"
    by simp
  with c have 3: "length sched_one_ticker \<le> 7 * length [''AAPL''] + 4" by simp
  from d have 4: "dom m = {''AAPL''}" by simp
  from r e have 5: "returned c = Some (m, None)" by simp
  from c 5 4 1 have "\<exists>c m. FetchPriceConcurrent fetch_fails [''AAPL''] 5 sched_one_ticker = Some c
      \<and> returned c = Some (m, None) \<and> dom m = {''AAPL''}
      \<and> m ''AAPL'' = Some (worker_result fetch_fails [''AAPL''] 0)"
    by blast
  with 2 3 show ?thesis by simp
qed

end
